theory Spec2Isabelle
  imports Complex_Main
begin

section \<open>Common conventions\<close>

text \<open>
  The repository's resilient execution core is TypeScript. The embedding uses:
  \<^item> \<open>Date.now()\<close>: an \<open>int\<close> of milliseconds, passed to every operation that reads
    the clock (one argument per clock reading that can differ from an earlier one);
  \<^item> JavaScript numbers holding token counts and rates: exact rationals (\<open>rat\<close>);
    division by zero is written out (\<open>x / 0\<close> is \<open>Infinity\<close> for \<open>x > 0\<close>);
  \<^item> JavaScript numbers read from strings (\<open>parseFloat\<close>, \<open>parseInt\<close>): the double
    nearest to the literal, with underflow to \<open>0\<close> and overflow to \<open>Infinity\<close>;
  \<^item> a thrown \<open>Error\<close> or a rejected promise: the \<open>Inl\<close> branch of a sum;
  \<^item> mutated objects: records passed in and returned updated;
  \<^item> an \<open>async\<close> function: the value its promise settles to, with the state it
    leaves; where callers interleave, one step per stretch of code between two
    \<open>await\<close>s.
  Calls of the logger change nothing that is modelled and are left out.
\<close>

datatype error =
    Error string                 \<comment> \<open>\<open>new Error(message)\<close>\<close>
  | ApiError string int string   \<comment> \<open>\<open>new ApiError(message, statusCode, responseData)\<close>\<close>

section \<open>Token bucket (src/rate-limit/token-bucket.ts)\<close>

record TokenBucket =
  tokens :: rat
  lastRefill :: int
  capacity :: rat
  refillRate :: rat

text \<open>The constructor: \<open>tokens = capacity\<close>, \<open>lastRefill = Date.now()\<close>.\<close>

definition TokenBucket_new :: "rat \<Rightarrow> rat \<Rightarrow> int \<Rightarrow> TokenBucket" where
  "TokenBucket_new cap rate now =
     \<lparr>tokens = cap, lastRefill = now, capacity = cap, refillRate = rate\<rparr>"

definition refill :: "int \<Rightarrow> TokenBucket \<Rightarrow> TokenBucket" where
  "refill now b =
     (let timePassed = of_int (now - lastRefill b) / 1000;
          tokensToAdd = timePassed * refillRate b
      in b\<lparr>tokens := min (capacity b) (tokens b + tokensToAdd), lastRefill := now\<rparr>)"

text \<open>
  The argument handed to \<open>sleep\<close>. \<open>waitTime\<close> is computed only when
  \<open>tokens < n\<close>, so the dividend is positive and a zero \<open>refillRate\<close> gives
  JavaScript's \<open>Infinity\<close>.
\<close>

datatype delay = Ms rat | Infinity

definition waitTime :: "rat \<Rightarrow> TokenBucket \<Rightarrow> delay" where
  "waitTime n b =
     (if refillRate b = 0 then Infinity
      else Ms (((n - tokens b) / refillRate b) * 1000))"

text \<open>
  \<open>consume(n)\<close>: \<open>now\<close> is the clock at the first \<open>refill\<close>, \<open>wake\<close> the clock
  at the second one (read after the sleep, only when the bucket was short). The result
  is the sleep that was requested, if any, and the bucket afterwards. The source has no
  \<open>throw\<close> on this path.
\<close>

definition consume :: "rat \<Rightarrow> int \<Rightarrow> int \<Rightarrow> TokenBucket \<Rightarrow> delay option \<times> TokenBucket" where
  "consume n now wake b =
     (let b1 = refill now b in
      if tokens b1 < n then
        (let b2 = refill wake b1
         in (Some (waitTime n b1), b2\<lparr>tokens := tokens b2 - n\<rparr>))
      else (None, b1\<lparr>tokens := tokens b1 - n\<rparr>))"

text \<open>
  \<open>consume\<close> above is one call from its first statement to its last, on a bucket that
  no other call touches in the meantime. The call has one \<open>await\<close>, the sleep, and
  while it sleeps other callers of the same bucket run. Its two stretches:
  \<^item> \<open>consume_enter\<close>, from the call to the sleep (the bucket is short: the delay asked
    for, and the bucket refilled once) or to the end (the bucket is not short: the
    decrement is done);
  \<^item> \<open>consume_resume\<close>, from the wake-up to the end, on the bucket as the other
    callers have left it: the second refill and the decrement, without a second
    comparison of \<open>tokens\<close> with \<open>n\<close>.
\<close>

definition consume_enter :: "rat \<Rightarrow> int \<Rightarrow> TokenBucket \<Rightarrow> delay option \<times> TokenBucket" where
  "consume_enter n now b =
     (let b1 = refill now b in
      if tokens b1 < n then (Some (waitTime n b1), b1)
      else (None, b1\<lparr>tokens := tokens b1 - n\<rparr>))"

definition consume_resume :: "rat \<Rightarrow> int \<Rightarrow> TokenBucket \<Rightarrow> TokenBucket" where
  "consume_resume n wake b = (let b2 = refill wake b in b2\<lparr>tokens := tokens b2 - n\<rparr>)"

definition getAvailableTokens :: "int \<Rightarrow> TokenBucket \<Rightarrow> int \<times> TokenBucket" where
  "getAvailableTokens now b = (let b1 = refill now b in (\<lfloor>tokens b1\<rfloor>, b1))"

text \<open>
  The operations a caller can apply to a bucket, each with the clock readings it makes,
  and a run of them from a freshly constructed bucket.
\<close>

datatype bucket_op =
    Refill int
  | Consume rat int int
  | GetAvailableTokens int

fun bucket_step :: "TokenBucket \<Rightarrow> bucket_op \<Rightarrow> TokenBucket" where
  "bucket_step b (Refill now) = refill now b"
| "bucket_step b (Consume n now wake) = snd (consume n now wake b)"
| "bucket_step b (GetAvailableTokens now) = snd (getAvailableTokens now b)"

fun consume_amount_ok :: "bucket_op \<Rightarrow> bool" where
  "consume_amount_ok (Consume n now wake) = (0 \<le> n)"
| "consume_amount_ok _ = True"

definition bucket_run :: "rat \<Rightarrow> rat \<Rightarrow> int \<Rightarrow> bucket_op list \<Rightarrow> TokenBucket" where
  "bucket_run cap rate t0 ops = foldl bucket_step (TokenBucket_new cap rate t0) ops"

section \<open>Circuit breaker (src/rate-limit/circuit-breaker.ts)\<close>

datatype breaker_state = CLOSED | OPEN | HALF_OPEN

record CircuitBreaker =
  state :: breaker_state
  failureCount :: int
  lastFailureTime :: int
  threshold :: int
  timeout :: int

definition CircuitBreaker_new :: "int \<Rightarrow> int \<Rightarrow> CircuitBreaker" where
  "CircuitBreaker_new thr tmo =
     \<lparr>state = CLOSED, failureCount = 0, lastFailureTime = 0, threshold = thr, timeout = tmo\<rparr>"

definition onSuccess :: "CircuitBreaker \<Rightarrow> CircuitBreaker" where
  "onSuccess cb =
     (let cb1 = cb\<lparr>failureCount := 0\<rparr>
      in if state cb1 = HALF_OPEN then cb1\<lparr>state := CLOSED\<rparr> else cb1)"

definition onFailure :: "int \<Rightarrow> CircuitBreaker \<Rightarrow> CircuitBreaker" where
  "onFailure now cb =
     (let cb1 = cb\<lparr>failureCount := failureCount cb + 1, lastFailureTime := now\<rparr>
      in if failureCount cb1 \<ge> threshold cb1 then cb1\<lparr>state := OPEN\<rparr> else cb1)"

text \<open>
  The first statement of \<open>execute\<close>: the \<open>if (this.state === 'OPEN')\<close> block. It
  either throws or lets the call through, with the state set to \<open>HALF_OPEN\<close> when the
  breaker was open and \<open>Date.now() - lastFailureTime > timeout\<close>.
\<close>

definition gate :: "int \<Rightarrow> CircuitBreaker \<Rightarrow> error + CircuitBreaker" where
  "gate now cb =
     (if state cb = OPEN then
        (if now - lastFailureTime cb > timeout cb then Inr (cb\<lparr>state := HALF_OPEN\<rparr>)
         else Inl (Error ''Circuit breaker is OPEN''))
      else Inr cb)"

text \<open>
  \<open>execute(fn)\<close>. The guarded operation \<open>fn\<close> acts on the world outside the breaker
  (\<open>'w\<close>: the network, a log) and resolves (\<open>Inr\<close>) or rejects (\<open>Inl\<close>); \<open>now\<close> is
  the clock at the gate and \<open>fin\<close> the clock read by \<open>onFailure\<close>.
\<close>

definition execute ::
  "int \<Rightarrow> int \<Rightarrow> ('w \<Rightarrow> (error + 'a) \<times> 'w) \<Rightarrow> 'w \<Rightarrow> CircuitBreaker
     \<Rightarrow> (error + 'a) \<times> 'w \<times> CircuitBreaker" where
  "execute now fin fn w cb =
     (case gate now cb of
        Inl e \<Rightarrow> (Inl e, w, cb)
      | Inr cb1 \<Rightarrow>
          (case fn w of
             (Inr result, w') \<Rightarrow> (Inr result, w', onSuccess cb1)
           | (Inl err, w') \<Rightarrow> (Inl err, w', onFailure fin cb1)))"

text \<open>
  A sequential history of calls through one breaker. Each attempt gives the clock at the
  gate, the clock at completion and whether the guarded operation resolves; the world
  is the log of the operations that were really invoked (\<open>True\<close> for a success).
\<close>

datatype attempt = Attempt int int bool

definition logged_call :: "bool \<Rightarrow> bool list \<Rightarrow> (error + unit) \<times> bool list" where
  "logged_call ok tr =
     (if ok then (Inr (), tr @ [True]) else (Inl (Error ''upstream failure''), tr @ [False]))"

fun attempt_step :: "bool list \<times> CircuitBreaker \<Rightarrow> attempt \<Rightarrow> bool list \<times> CircuitBreaker" where
  "attempt_step (tr, cb) (Attempt now fin ok) = snd (execute now fin (logged_call ok) tr cb)"

definition breaker_run :: "int \<Rightarrow> int \<Rightarrow> attempt list \<Rightarrow> bool list \<times> CircuitBreaker" where
  "breaker_run thr tmo as = foldl attempt_step ([], CircuitBreaker_new thr tmo) as"

text \<open>The number of invoked operations that failed since the last one that succeeded.\<close>

definition trailing_failures :: "bool list \<Rightarrow> int" where
  "trailing_failures tr = int (length (takeWhile Not (rev tr)))"

section \<open>Endpoint rate limiter (src/rate-limit/rate-limiter.ts)\<close>

text \<open>\<open>s.includes(p)\<close>, named \<open>includesStr\<close> here: \<open>p\<close> occurs in \<open>s\<close> as a contiguous substring.\<close>

fun startsWith :: "string \<Rightarrow> string \<Rightarrow> bool" where
  "startsWith s [] = True"
| "startsWith [] (p # ps) = False"
| "startsWith (c # cs) (p # ps) = (c = p \<and> startsWith cs ps)"

fun includesStr :: "string \<Rightarrow> string \<Rightarrow> bool" where
  "includesStr [] p = (p = [])"
| "includesStr (c # cs) p = (startsWith (c # cs) p \<or> includesStr cs p)"

record RateLimit =
  limitCapacity :: rat
  limitRefillRate :: rat

text \<open>
  \<open>limits\<close> is a JavaScript \<open>Map\<close>, iterated in insertion order by
  \<open>getEndpointPattern\<close>: an association list. \<open>buckets\<close> is only looked up and
  updated by key: a map.
\<close>

record RateLimiter =
  buckets :: "string \<rightharpoonup> TokenBucket"
  limits :: "(string \<times> RateLimit) list"

definition setupLimits :: "(string \<times> RateLimit) list" where
  "setupLimits =
     [(''/quotes/'', \<lparr>limitCapacity = 50, limitRefillRate = 20\<rparr>),
      (''/orders/'', \<lparr>limitCapacity = 10, limitRefillRate = 2\<rparr>),
      (''/accounts/'', \<lparr>limitCapacity = 20, limitRefillRate = 5\<rparr>),
      (''*'', \<lparr>limitCapacity = 100, limitRefillRate = 30\<rparr>)]"

definition RateLimiter_new :: RateLimiter where
  "RateLimiter_new = \<lparr>buckets = Map.empty, limits = setupLimits\<rparr>"

fun getEndpointPattern :: "(string \<times> RateLimit) list \<Rightarrow> string \<Rightarrow> string" where
  "getEndpointPattern [] endpoint = ''*''"
| "getEndpointPattern ((pattern, l) # rest) endpoint =
     (if pattern \<noteq> ''*'' \<and> includesStr endpoint pattern then pattern
      else getEndpointPattern rest endpoint)"

text \<open>
  \<open>consumeToken(pattern)\<close>: the bucket is created on first use from the pattern's limit
  (the constructor reads the clock, \<open>now\<close>); a pattern with neither bucket nor limit
  returns at once. Then \<open>bucket.consume()\<close>, one token.
\<close>

definition consumeToken ::
  "string \<Rightarrow> int \<Rightarrow> int \<Rightarrow> RateLimiter \<Rightarrow> delay option \<times> RateLimiter" where
  "consumeToken pattern now wake rl =
     (case buckets rl pattern of
        Some bucket \<Rightarrow>
          (let (d, b') = consume 1 now wake bucket
           in (d, rl\<lparr>buckets := (buckets rl)(pattern \<mapsto> b')\<rparr>))
      | None \<Rightarrow>
          (case map_of (limits rl) pattern of
             None \<Rightarrow> (None, rl)
           | Some limit \<Rightarrow>
               (let bucket = TokenBucket_new (limitCapacity limit) (limitRefillRate limit) now;
                    (d, b') = consume 1 now wake bucket
                in (d, rl\<lparr>buckets := (buckets rl)(pattern \<mapsto> b')\<rparr>))))"

text \<open>
  \<open>checkLimit(endpoint)\<close>: the endpoint's pattern first, then the global pattern
  \<open>'*'\<close>. \<open>t1\<close>, \<open>w1\<close> are the clock readings of the first \<open>consumeToken\<close>, \<open>t2\<close>,
  \<open>w2\<close> those of the second. The result lists the two sleeps requested.
\<close>

definition checkLimit ::
  "string \<Rightarrow> int \<Rightarrow> int \<Rightarrow> int \<Rightarrow> int \<Rightarrow> RateLimiter
     \<Rightarrow> (delay option \<times> delay option) \<times> RateLimiter" where
  "checkLimit endpoint t1 w1 t2 w2 rl =
     (let endpointPattern = getEndpointPattern (limits rl) endpoint;
          (d1, rl1) = consumeToken endpointPattern t1 w1 rl;
          (d2, rl2) = consumeToken ''*'' t2 w2 rl1
      in ((d1, d2), rl2))"

text \<open>
  The bucket \<open>consumeToken\<close> works on: the stored one, or the one it creates.
\<close>

definition bucket_for :: "RateLimiter \<Rightarrow> string \<Rightarrow> int \<Rightarrow> TokenBucket option" where
  "bucket_for rl pattern now =
     (case buckets rl pattern of
        Some bucket \<Rightarrow> Some bucket
      | None \<Rightarrow> map_option (\<lambda>limit. TokenBucket_new (limitCapacity limit) (limitRefillRate limit) now)
                  (map_of (limits rl) pattern))"

text \<open>The bucket as \<open>consume\<close> has refilled it, just before \<open>this.tokens -= tokens\<close>.\<close>

definition before_decrement :: "rat \<Rightarrow> int \<Rightarrow> int \<Rightarrow> TokenBucket \<Rightarrow> TokenBucket" where
  "before_decrement n now wake b =
     (let b1 = refill now b in if tokens b1 < n then refill wake b1 else b1)"

text \<open>
  The timer is honoured when the clock read after a sleep is not earlier than the clock
  before it plus the delay asked for.
\<close>

definition timer_honoured :: "delay option \<Rightarrow> int \<Rightarrow> int \<Rightarrow> bool" where
  "timer_honoured d now wake =
     (case d of None \<Rightarrow> True | Some Infinity \<Rightarrow> False | Some (Ms ms) \<Rightarrow> ms \<le> of_int (wake - now))"

section \<open>The client's rate limiter (src/client/rate-limiter.ts)\<close>

record RateLimitConfig =
  requestsPerSecond :: rat
  burstSize :: rat

text \<open>
  The fields of \<open>RateLimitBucket\<close> are \<open>tokens\<close> and \<open>lastRefill\<close> in the source; they
  are prefixed here to keep them apart from the fields of \<open>TokenBucket\<close>.
\<close>

record RateLimitBucket =
  bucketTokens :: rat
  bucketLastRefill :: int

definition defaultConfig :: RateLimitConfig where
  "defaultConfig = \<lparr>requestsPerSecond = 10, burstSize = 20\<rparr>"

definition endpointLimits :: "(string \<times> RateLimitConfig) list" where
  "endpointLimits =
     [(''/quotes/'', \<lparr>requestsPerSecond = 20, burstSize = 40\<rparr>),
      (''/orders/'', \<lparr>requestsPerSecond = 5, burstSize = 10\<rparr>),
      (''/accounts/'', \<lparr>requestsPerSecond = 10, burstSize = 20\<rparr>)]"

fun getConfigFrom :: "(string \<times> RateLimitConfig) list \<Rightarrow> string \<Rightarrow> RateLimitConfig" where
  "getConfigFrom [] endpoint = defaultConfig"
| "getConfigFrom ((pattern, config) # rest) endpoint =
     (if includesStr endpoint pattern then config else getConfigFrom rest endpoint)"

definition getConfigForEndpoint :: "string \<Rightarrow> RateLimitConfig" where
  "getConfigForEndpoint endpoint = getConfigFrom endpointLimits endpoint"

definition getOrCreateBucket ::
  "string \<Rightarrow> RateLimitConfig \<Rightarrow> int \<Rightarrow> (string \<rightharpoonup> RateLimitBucket)
     \<Rightarrow> RateLimitBucket \<times> (string \<rightharpoonup> RateLimitBucket)" where
  "getOrCreateBucket endpoint config now bs =
     (case bs endpoint of
        Some bucket \<Rightarrow> (bucket, bs)
      | None \<Rightarrow>
          (let bucket = \<lparr>bucketTokens = burstSize config, bucketLastRefill = now\<rparr>
           in (bucket, bs(endpoint \<mapsto> bucket))))"

definition refillBucket :: "RateLimitConfig \<Rightarrow> int \<Rightarrow> RateLimitBucket \<Rightarrow> RateLimitBucket" where
  "refillBucket config now bucket =
     (let timePassed = of_int (now - bucketLastRefill bucket) / 1000;
          tokensToAdd = timePassed * requestsPerSecond config
      in \<lparr>bucketTokens = min (burstSize config) (bucketTokens bucket + tokensToAdd),
          bucketLastRefill = now\<rparr>)"

definition calculateWaitTime :: "RateLimitConfig \<Rightarrow> delay" where
  "calculateWaitTime config =
     (if requestsPerSecond config = 0 then Infinity
      else Ms ((1 / requestsPerSecond config) * 1000))"

text \<open>
  The client's \<open>checkLimit(endpoint)\<close>. The buckets are keyed by the endpoint string
  itself; the bucket object is mutated in place, so the map holds the updated bucket.
\<close>

definition client_checkLimit ::
  "string \<Rightarrow> int \<Rightarrow> int \<Rightarrow> (string \<rightharpoonup> RateLimitBucket)
     \<Rightarrow> delay option \<times> (string \<rightharpoonup> RateLimitBucket)" where
  "client_checkLimit endpoint now wake bs =
     (let config = getConfigForEndpoint endpoint;
          (bucket, bs1) = getOrCreateBucket endpoint config now bs;
          b1 = refillBucket config now bucket
      in if bucketTokens b1 < 1 then
           (let b2 = refillBucket config wake b1
            in (Some (calculateWaitTime config),
                bs1(endpoint \<mapsto> b2\<lparr>bucketTokens := bucketTokens b2 - 1\<rparr>)))
         else (None, bs1(endpoint \<mapsto> b1\<lparr>bucketTokens := bucketTokens b1 - 1\<rparr>)))"

section \<open>Invariants used in the proofs\<close>

text \<open>
  The invariant of a sequential history of calls through a breaker: what holds of the
  log and the breaker after every call.
\<close>

definition breaker_inv :: "int \<Rightarrow> bool list \<times> CircuitBreaker \<Rightarrow> bool" where
  "breaker_inv thr s =
     (case s of (tr, cb) \<Rightarrow>
        threshold cb = thr \<and> failureCount cb = trailing_failures tr \<and>
        state cb \<noteq> HALF_OPEN \<and>
        (state cb = OPEN \<longrightarrow> thr \<le> failureCount cb \<and> 0 < failureCount cb))"

text \<open>
  A rate limiter as its constructor and \<open>checkLimit\<close> leave it: the built-in limits,
  and every bucket created from the limit of its pattern.
\<close>

definition limiter_wf :: "RateLimiter \<Rightarrow> bool" where
  "limiter_wf rl =
     (limits rl = setupLimits \<and>
      (\<forall>p b. buckets rl p = Some b \<longrightarrow>
         (\<exists>l. map_of setupLimits p = Some l \<and> capacity b = limitCapacity l
              \<and> refillRate b = limitRefillRate l)))"

text \<open>
  The client's bucket for an endpoint as \<open>checkLimit\<close> has refilled it, just before
  \<open>bucket.tokens -= 1\<close>.
\<close>

definition client_before_decrement ::
  "string \<Rightarrow> int \<Rightarrow> int \<Rightarrow> (string \<rightharpoonup> RateLimitBucket) \<Rightarrow> RateLimitBucket" where
  "client_before_decrement endpoint now wake bs =
     (let config = getConfigForEndpoint endpoint;
          (bucket, bs1) = getOrCreateBucket endpoint config now bs;
          b1 = refillBucket config now bucket
      in if bucketTokens b1 < 1 then refillBucket config wake b1 else b1)"

section \<open>Two-tier cache (src/cache/cache-manager.ts)\<close>

text \<open>
  Cached values are an arbitrary type \<open>'v\<close> of values other than \<open>null\<close> that
  survive \<open>JSON.parse(JSON.stringify(v))\<close> unchanged; a miss (\<open>null\<close>) is \<open>None\<close>.
  \<open>ttl\<close> and \<open>defaultTTL\<close> are whole seconds, as \<open>redis.setex\<close> and the TTL table
  of the repository (\<open>cacheTTLs\<close>) take them; an absent \<open>ttl\<close> is \<open>None\<close>.
  The periodic \<open>cleanupL1\<close> deletes local entries that \<open>get\<close> already treats as
  expired, so no read depends on it; it is left out.
\<close>

record 'v CachedValue =
  data :: 'v
  expiresAt :: int

record CacheConfig =
  defaultTTL :: int
  enableL1 :: bool
  enableL2 :: bool

text \<open>
  The shared tier is a Redis server, outside the repository. Its contract, as far as the
  cache uses it: \<open>SETEX key seconds value\<close> stores the value with an expiry
  \<open>seconds\<close> seconds ahead and refuses a non-positive \<open>seconds\<close>; \<open>GET\<close> returns the
  value until the expiry time is reached and nil from then on; \<open>DEL\<close> removes the keys
  it is given, taken literally.
\<close>

record 'v redis_entry =
  stored :: 'v
  expireAt :: int

type_synonym 'v redis_db = "string \<rightharpoonup> 'v redis_entry"

definition redis_get :: "int \<Rightarrow> 'v redis_db \<Rightarrow> string \<Rightarrow> 'v option" where
  "redis_get now db key =
     (case db key of
        None \<Rightarrow> None
      | Some e \<Rightarrow> if now < expireAt e then Some (stored e) else None)"

definition redis_setex :: "int \<Rightarrow> string \<Rightarrow> int \<Rightarrow> 'v \<Rightarrow> 'v redis_db \<Rightarrow> error + 'v redis_db" where
  "redis_setex now key seconds v db =
     (if seconds \<le> 0 then Inl (Error ''ERR invalid expire time in setex'')
      else Inr (db(key \<mapsto> \<lparr>stored = v, expireAt = now + seconds * 1000\<rparr>)))"

definition redis_del :: "string \<Rightarrow> 'v redis_db \<Rightarrow> 'v redis_db" where
  "redis_del key db = db(key := None)"

record 'v CacheManager =
  config :: CacheConfig
  l1Cache :: "string \<rightharpoonup> 'v CachedValue"
  redis :: "'v redis_db"

text \<open>
  \<open>CacheManager.get(key)\<close>, at clock \<open>now\<close>: the value or a miss, and the cache
  afterwards (a hit in the shared tier re-populates the local one for 60000 ms).
\<close>

definition CacheManager_get :: "int \<Rightarrow> string \<Rightarrow> 'v CacheManager \<Rightarrow> 'v option \<times> 'v CacheManager" where
  "CacheManager_get now key c =
     (let l1hit =
            (if enableL1 (config c) then
               (case l1Cache c key of
                  Some l1Value \<Rightarrow> if expiresAt l1Value > now then Some (data l1Value) else None
                | None \<Rightarrow> None)
             else None)
      in case l1hit of
           Some d \<Rightarrow> (Some d, c)
         | None \<Rightarrow>
             (if enableL2 (config c) then
                (case redis_get now (redis c) key of
                   Some d \<Rightarrow>
                     (Some d,
                      if enableL1 (config c)
                      then c\<lparr>l1Cache := (l1Cache c)(key \<mapsto> \<lparr>data = d, expiresAt = now + 60000\<rparr>)\<rparr>
                      else c)
                 | None \<Rightarrow> (None, c))
              else (None, c)))"

text \<open>\<open>ttl || this.config.defaultTTL\<close>: an absent or zero \<open>ttl\<close> is falsy.\<close>

definition actualTTL :: "int option \<Rightarrow> CacheConfig \<Rightarrow> int" where
  "actualTTL ttl cfg =
     (case ttl of None \<Rightarrow> defaultTTL cfg | Some t \<Rightarrow> if t = 0 then defaultTTL cfg else t)"

text \<open>
  \<open>CacheManager.set(key, value, ttl)\<close>, at clock \<open>now\<close>. The local entry expires at
  \<open>Date.now() + Math.min(actualTTL, 60000)\<close>, the number of seconds added to a clock in
  milliseconds as the source does; the shared entry is written with \<open>SETEX\<close>. The result
  is the error of a rejected \<open>SETEX\<close>, if any, and the cache afterwards.
\<close>

definition CacheManager_set ::
  "int \<Rightarrow> string \<Rightarrow> 'v \<Rightarrow> int option \<Rightarrow> 'v CacheManager \<Rightarrow> error option \<times> 'v CacheManager" where
  "CacheManager_set now key v ttl c =
     (let t = actualTTL ttl (config c);
          c1 = (if enableL1 (config c)
                then c\<lparr>l1Cache := (l1Cache c)(key \<mapsto> \<lparr>data = v, expiresAt = now + min t 60000\<rparr>)\<rparr>
                else c)
      in if enableL2 (config c) then
           (case redis_setex now key t v (redis c1) of
              Inl e \<Rightarrow> (Some e, c1)
            | Inr db \<Rightarrow> (None, c1\<lparr>redis := db\<rparr>))
         else (None, c1))"

text \<open>\<open>CacheManager.delete(key)\<close>: the key, taken literally, leaves both tiers.\<close>

definition CacheManager_delete :: "string \<Rightarrow> 'v CacheManager \<Rightarrow> 'v CacheManager" where
  "CacheManager_delete key c =
     (let c1 = c\<lparr>l1Cache := (l1Cache c)(key := None)\<rparr>
      in if enableL2 (config c1) then c1\<lparr>redis := redis_del key (redis c1)\<rparr> else c1)"

text \<open>
  \<open>CacheInvalidationManager.invalidateAfterOrder(symbol)\<close>
  (src/cache/cache-invalidation.ts): four calls of \<open>cache.delete\<close> under
  \<open>Promise.all\<close>, each with a pattern string as its key.
\<close>

definition invalidateAfterOrder :: "string \<Rightarrow> 'v CacheManager \<Rightarrow> 'v CacheManager" where
  "invalidateAfterOrder symbol c =
     foldl (\<lambda>c' key. CacheManager_delete key c') c
       [''positions:*'', ''portfolio:*'', ''orders:*'', ''balance:*'']"

text \<open>An empty cache with the given tiers enabled.\<close>

definition CacheManager_new :: "CacheConfig \<Rightarrow> 'v CacheManager" where
  "CacheManager_new cfg = \<lparr>config = cfg, l1Cache = Map.empty, redis = Map.empty\<rparr>"

text \<open>
  The three configurations of the claims: local tier only, shared tier only, both.
\<close>

definition l1_only :: CacheConfig where
  "l1_only = \<lparr>defaultTTL = 60, enableL1 = True, enableL2 = False\<rparr>"

definition l2_only :: CacheConfig where
  "l2_only = \<lparr>defaultTTL = 60, enableL1 = False, enableL2 = True\<rparr>"

definition both_tiers :: CacheConfig where
  "both_tiers = \<lparr>defaultTTL = 60, enableL1 = True, enableL2 = True\<rparr>"

section \<open>JavaScript's numbers and string-to-number functions\<close>

text \<open>
  A JavaScript number is an IEEE 754 double: \<open>NaN\<close>, an infinity, or a finite double,
  kept here as the rational it denotes (\<open>-0\<close> and \<open>0\<close> are both \<open>Num 0\<close>: the code
  only compares with \<open>0\<close> and multiplies).
\<close>

datatype jsnum = NaN | Num rat | PlusInfinity | MinusInfinity

text \<open>The number of binary digits of a positive integer.\<close>

function bitLength :: "int \<Rightarrow> int" where
  "bitLength a = (if a \<le> 0 then 0 else 1 + bitLength (a div 2))"
  by pat_completeness auto
termination by (relation "measure nat") auto

declare bitLength.simps [simp del]

text \<open>The integer part of the binary logarithm of \<open>a / b\<close>, for positive \<open>a\<close> and \<open>b\<close>.\<close>

definition floorLog2 :: "int \<Rightarrow> int \<Rightarrow> int" where
  "floorLog2 a b =
     (let d = bitLength a - bitLength b
      in if (if 0 \<le> d then b * 2 ^ nat d \<le> a else b \<le> a * 2 ^ nat (- d)) then d else d - 1)"

text \<open>The integer nearest to \<open>a / b\<close> (\<open>0 \<le> a\<close>, \<open>0 < b\<close>), a tie going to the even one.\<close>

definition roundHalfEven :: "int \<Rightarrow> int \<Rightarrow> int" where
  "roundHalfEven a b =
     (let q = a div b; r = a mod b
      in if 2 * r < b then q else if b < 2 * r then q + 1 else if even q then q else q + 1)"

text \<open>
  The double nearest to \<open>a / b\<close> (\<open>0 < b\<close>), round-to-nearest, ties to even: 53
  significant bits from exponent \<open>-1022\<close> up, multiples of \<open>2 ^ (-1074)\<close> below (the
  subnormals; what is nearer to \<open>0\<close> than to \<open>2 ^ (-1074)\<close> becomes \<open>0\<close>), and an
  infinity when the rounded value reaches \<open>2 ^ 1024\<close>.
\<close>

definition toDouble :: "int \<Rightarrow> int \<Rightarrow> jsnum" where
  "toDouble a b =
     (if a = 0 then Num 0
      else
        (let m = \<bar>a\<bar>; e = max (floorLog2 m b) (- 1022); s = e - 52
         in if 1024 \<le> e then (if a < 0 then MinusInfinity else PlusInfinity)
            else
              (let q = (if 0 \<le> s then roundHalfEven m (b * 2 ^ nat s)
                        else roundHalfEven (m * 2 ^ nat (- s)) b)
               in if e = 1023 \<and> q = 2 ^ 53
                    then (if a < 0 then MinusInfinity else PlusInfinity)
                  else Num (of_int (sgn a)
                            * (if 0 \<le> s then of_int (q * 2 ^ nat s)
                               else of_int q / of_int (2 ^ nat (- s)))))))"

text \<open>
  \<open>parseFloat\<close> and \<open>parseInt\<close> are built into the language. They read the longest
  prefix of the string, after leading white space, that is a number literal, and return
  \<open>NaN\<close> when there is none, otherwise the double nearest to the literal's value. The
  model reads ASCII white space, a sign, \<open>Infinity\<close>, digits, a fraction and an
  exponent, and for \<open>parseInt\<close> a \<open>0x\<close> prefix.
\<close>

definition isSpace :: "char \<Rightarrow> bool" where
  "isSpace c = (c \<in> set [CHR '' '', CHR 0x09, CHR 0x0A, CHR 0x0B, CHR 0x0C, CHR 0x0D])"

definition isDigit :: "char \<Rightarrow> bool" where
  "isDigit c = (c \<in> set ''0123456789'')"

definition digitVal :: "char \<Rightarrow> int" where
  "digitVal c = of_char c - 48"

definition digitsVal :: "string \<Rightarrow> int" where
  "digitsVal ds = foldl (\<lambda>acc c. 10 * acc + digitVal c) 0 ds"

definition hexVal :: "char \<Rightarrow> int option" where
  "hexVal c =
     (if isDigit c then Some (digitVal c)
      else if c \<in> set ''abcdef'' then Some (of_char c - 87)
      else if c \<in> set ''ABCDEF'' then Some (of_char c - 55)
      else None)"

definition hexDigitsVal :: "string \<Rightarrow> int" where
  "hexDigitsVal ds = foldl (\<lambda>acc c. 16 * acc + (case hexVal c of Some d \<Rightarrow> d | None \<Rightarrow> 0)) 0 ds"

text \<open>The sign in front of a literal, and the rest of the string.\<close>

fun signOf :: "string \<Rightarrow> int \<times> string" where
  "signOf (c # cs) =
     (if c = CHR ''-'' then (- 1, cs) else if c = CHR ''+'' then (1, cs) else (1, c # cs))"
| "signOf [] = (1, [])"

text \<open>The exponent part \<open>e\<close>, sign, digits; it counts only when a digit follows.\<close>

definition exponentOf :: "string \<Rightarrow> int" where
  "exponentOf s =
     (case s of
        [] \<Rightarrow> 0
      | c # cs \<Rightarrow>
          if c = CHR ''e'' \<or> c = CHR ''E'' then
            (let (sg, r) = signOf cs; ds = takeWhile isDigit r
             in if ds = [] then 0 else sg * digitsVal ds)
          else 0)"

text \<open>
  The literal with integer digits \<open>ip\<close>, fraction digits \<open>fp\<close> and exponent \<open>x\<close> denotes
  the digits of \<open>ip\<close> and \<open>fp\<close> read as one integer, times \<open>10\<close> to the power
  \<open>x - length fp\<close>.
\<close>

definition parseFloat :: "string \<Rightarrow> jsnum" where
  "parseFloat s =
     (let (sg, r) = signOf (dropWhile isSpace s) in
      if startsWith r ''Infinity'' then (if sg < 0 then MinusInfinity else PlusInfinity)
      else
        (let ip = takeWhile isDigit r;
             r2 = dropWhile isDigit r;
             fp = (case r2 of [] \<Rightarrow> [] | c # cs \<Rightarrow> if c = CHR ''.'' then takeWhile isDigit cs else []);
             r3 = (case r2 of [] \<Rightarrow> [] | c # cs \<Rightarrow> if c = CHR ''.'' then dropWhile isDigit cs else r2);
             k = exponentOf r3 - int (length fp)
         in if ip = [] \<and> fp = [] then NaN
            else if 0 \<le> k then toDouble (sg * digitsVal (ip @ fp) * 10 ^ nat k) 1
            else toDouble (sg * digitsVal (ip @ fp)) (10 ^ nat (- k))))"

definition parseInt :: "string \<Rightarrow> jsnum" where
  "parseInt s =
     (let (sg, r) = signOf (dropWhile isSpace s) in
      if startsWith r ''0x'' \<or> startsWith r ''0X'' then
        (let hs = takeWhile (\<lambda>c. hexVal c \<noteq> None) (drop 2 r)
         in if hs = [] then NaN else toDouble (sg * hexDigitsVal hs) 1)
      else
        (let ds = takeWhile isDigit r
         in if ds = [] then NaN else toDouble (sg * digitsVal ds) 1))"

text \<open>\<open>x <= 0\<close> on numbers: false for \<open>NaN\<close>.\<close>

fun le_zero :: "jsnum \<Rightarrow> bool" where
  "le_zero NaN = False"
| "le_zero (Num q) = (q \<le> 0)"
| "le_zero PlusInfinity = False"
| "le_zero MinusInfinity = True"

text \<open>\<open>x * 1000\<close> on numbers: the double nearest to the product.\<close>

fun times1000 :: "jsnum \<Rightarrow> jsnum" where
  "times1000 (Num q) = (case quotient_of (q * 1000) of (a, b) \<Rightarrow> toDouble a b)"
| "times1000 x = x"

section \<open>Authentication manager (src/client/auth-manager.ts)\<close>

record AuthToken =
  access_token :: string
  refresh_token :: "string option"
  expires_in :: int
  token_type :: string
  expires_at :: "int option"

text \<open>
  \<open>tokenRefreshPromise\<close> is \<open>null\<close> or the promise \<open>performTokenRefresh()\<close>
  returned, the only value ever assigned to it: \<open>refreshInProgress\<close> says which.
\<close>

record AuthManager =
  currentToken :: "AuthToken option"
  refreshInProgress :: bool

text \<open>
  \<open>performTokenRefresh\<close> is where the OAuth endpoint would be called (\<open>This would call
  the Robinhood OAuth endpoint\<close>); its body is one statement, a \<open>throw\<close>, so its
  promise always rejects.
\<close>

definition performTokenRefresh :: "error + AuthToken" where
  "performTokenRefresh =
     Inl (Error ''Token refresh not implemented - using manual token from .env'')"

text \<open>\<open>!this.currentToken?.refresh_token\<close>: no token, no refresh token, or an empty one.\<close>

definition noRefreshToken :: "AuthManager \<Rightarrow> bool" where
  "noRefreshToken am =
     (case currentToken am of
        None \<Rightarrow> True
      | Some tok \<Rightarrow> (case refresh_token tok of None \<Rightarrow> True | Some r \<Rightarrow> r = []))"

text \<open>
  \<open>refreshToken\<close>, written over what the promise of \<open>performTokenRefresh()\<close> settles to
  (\<open>outcome\<close>), so that the statements after the \<open>await\<close> can be read too: with a
  refresh in progress it awaits that one; without a refresh token it throws; otherwise
  it awaits a new refresh, stores the new token and returns its \<open>access_token\<close>, and
  in any case clears \<open>tokenRefreshPromise\<close>.
\<close>

definition refreshTokenWith ::
  "error + AuthToken \<Rightarrow> AuthManager \<Rightarrow> (error + string) \<times> AuthManager" where
  "refreshTokenWith outcome am =
     (if refreshInProgress am then
        (case outcome of
           Inl e \<Rightarrow> (Inl e, am)
         | Inr token \<Rightarrow> (Inr (access_token token), am))
      else if noRefreshToken am then (Inl (Error ''No refresh token available''), am)
      else
        (case outcome of
           Inl e \<Rightarrow> (Inl e, am\<lparr>refreshInProgress := False\<rparr>)
         | Inr newToken \<Rightarrow>
             (Inr (access_token newToken),
              am\<lparr>currentToken := Some newToken, refreshInProgress := False\<rparr>)))"

text \<open>\<open>refreshToken\<close> as it is in the sources, with the \<open>performTokenRefresh\<close> above.\<close>

definition refreshToken :: "AuthManager \<Rightarrow> (error + string) \<times> AuthManager" where
  "refreshToken am = refreshTokenWith performTokenRefresh am"

section \<open>Error handling of the API client (src/client/api-client.ts)\<close>









section \<open>Trading service (src/services/trading.service.ts)\<close>

datatype OrderSide = Buy | Sell

datatype OrderType = Market | Limit | StopLoss | StopLimit

text \<open>
  The order request as the service reads it: \<open>quantity\<close> is a string handed to
  \<open>parseFloat\<close>; an optional field that is absent is \<open>None\<close>. The field \<open>type\<close> is
  named \<open>order_type\<close> here; \<open>StopLoss\<close> is the source's \<open>'stop_loss'\<close>.
\<close>

record OrderRequest =
  account :: string
  instrument :: string
  symbol :: string
  order_type :: OrderType
  side :: OrderSide
  quantity :: string
  time_in_force :: string
  price :: "string option"
  stop_price :: "string option"

text \<open>\<open>!x\<close> for an optional string: absent or empty.\<close>

definition falsy :: "string option \<Rightarrow> bool" where
  "falsy x = (case x of None \<Rightarrow> True | Some s \<Rightarrow> s = [])"





section \<open>Cached, rate-limited, breaker-guarded GET (the updated ApiClient)\<close>

record 'v ApiClient =
  cache :: "'v CacheManager"
  rateLimiter :: RateLimiter
  circuitBreaker :: CircuitBreaker

text \<open>
  The arguments of \<open>get(url, config, cacheTTL)\<close>: \<open>params\<close> is
  \<open>JSON.stringify(config.params)\<close>, or the empty string without parameters.
\<close>

record request =
  url :: string
  params :: string
  cacheTTL :: "int option"

definition getCacheKey :: "string \<Rightarrow> string \<Rightarrow> string \<Rightarrow> string" where
  "getCacheKey method u ps = method @ '':'' @ u @ '':'' @ ps"

text \<open>\<open>if (cacheTTL)\<close>: absent and zero are falsy.\<close>

definition truthyTTL :: "int option \<Rightarrow> bool" where
  "truthyTTL ttl = (case ttl of None \<Rightarrow> False | Some t \<Rightarrow> t \<noteq> 0)"

text \<open>The clock readings one step of a caller makes, in order.\<close>

record clock =
  read1 :: int
  read2 :: int
  read3 :: int
  read4 :: int

text \<open>
  JavaScript runs one caller at a time and switches callers only at an \<open>await\<close>. A call
  of \<open>get\<close> is therefore a sequence of steps, each running from one \<open>await\<close> to the
  next; \<open>'v pc\<close> says where a caller stands:
  \<^item> \<open>Start\<close>: before the cache lookup;
  \<^item> \<open>Missed\<close>: the lookup missed (or there is no \<open>cacheTTL\<close>), before \<open>checkLimit\<close>;
  \<^item> \<open>Admitted\<close>: past the rate limiter, before \<open>circuitBreaker.execute\<close>;
  \<^item> \<open>InFlight i\<close>: the breaker let the call through and \<open>axios.get\<close> was called, as
    transport call number \<open>i\<close>; the response is awaited;
  \<^item> \<open>Fetched d\<close>: the response \<open>d\<close> arrived, before \<open>cache.set\<close>;
  \<^item> \<open>Returned d\<close>, \<open>Thrown e\<close>: the call is over.
  Cached values are truthy (\<open>if (cached)\<close> takes them as hits).
\<close>

datatype 'v pc =
    Start
  | Missed
  | Admitted
  | InFlight nat
  | Fetched 'v
  | Returned 'v
  | Thrown error

text \<open>
  One step of one caller. The shared state is the client and the number of transport
  calls made so far; \<open>respond i\<close> is the outcome of transport call number \<open>i\<close>.
\<close>

definition get_step ::
  "request \<Rightarrow> (nat \<Rightarrow> error + 'v) \<Rightarrow> clock \<Rightarrow> 'v pc \<Rightarrow> 'v ApiClient \<times> nat
     \<Rightarrow> 'v pc \<times> 'v ApiClient \<times> nat" where
  "get_step rq respond ck p st =
     (let a = fst st; n = snd st;
          cacheKey = getCacheKey ''GET'' (url rq) (params rq)
      in case p of
           Start \<Rightarrow>
             (if truthyTTL (cacheTTL rq) then
                (case CacheManager_get (read1 ck) cacheKey (cache a) of
                   (Some cached, c') \<Rightarrow> (Returned cached, a\<lparr>cache := c'\<rparr>, n)
                 | (None, c') \<Rightarrow> (Missed, a\<lparr>cache := c'\<rparr>, n))
              else (Missed, a, n))
         | Missed \<Rightarrow>
             (Admitted,
              a\<lparr>rateLimiter :=
                   snd (checkLimit (url rq) (read1 ck) (read2 ck) (read3 ck) (read4 ck) (rateLimiter a))\<rparr>,
              n)
         | Admitted \<Rightarrow>
             (case gate (read1 ck) (circuitBreaker a) of
                Inl e \<Rightarrow> (Thrown e, a, n)
              | Inr cb1 \<Rightarrow> (InFlight n, a\<lparr>circuitBreaker := cb1\<rparr>, n + 1))
         | InFlight i \<Rightarrow>
             (case respond i of
                Inr d \<Rightarrow>
                  (if truthyTTL (cacheTTL rq) then Fetched d else Returned d,
                   a\<lparr>circuitBreaker := onSuccess (circuitBreaker a)\<rparr>, n)
              | Inl e \<Rightarrow>
                  (Thrown e, a\<lparr>circuitBreaker := onFailure (read1 ck) (circuitBreaker a)\<rparr>, n))
         | Fetched d \<Rightarrow>
             (case CacheManager_set (read1 ck) cacheKey d (cacheTTL rq) (cache a) of
                (None, c') \<Rightarrow> (Returned d, a\<lparr>cache := c'\<rparr>, n)
              | (Some e, c') \<Rightarrow> (Thrown e, a\<lparr>cache := c'\<rparr>, n))
         | Returned d \<Rightarrow> (Returned d, a, n)
         | Thrown e \<Rightarrow> (Thrown e, a, n))"














section \<open>Pattern invalidation (CacheManager.clear)\<close>

text \<open>
  \<open>pattern.replace('*', '.*')\<close>: \<open>replace\<close> with a string as its first argument
  replaces the first occurrence only.
\<close>

definition replaceFirstStar :: "string \<Rightarrow> string" where
  "replaceFirstStar p =
     (case dropWhile (\<lambda>c. c \<noteq> CHR ''*'') p of
        [] \<Rightarrow> p
      | star # rest \<Rightarrow> takeWhile (\<lambda>c. c \<noteq> CHR ''*'') p @ ''.*'' @ rest)"

text \<open>
  \<open>matchesPattern(key, pattern)\<close>. \<open>newRegExp source\<close> stands for the language's
  \<open>new RegExp(source)\<close>: \<open>None\<close> when the constructor throws a \<open>SyntaxError\<close>,
  otherwise the regular expression's \<open>test\<close>.
\<close>

definition matchesPattern ::
  "(string \<Rightarrow> (string \<Rightarrow> bool) option) \<Rightarrow> string \<Rightarrow> string \<Rightarrow> error + bool" where
  "matchesPattern newRegExp key pattern =
     (case newRegExp (replaceFirstStar pattern) of
        None \<Rightarrow> Inl (Error ''SyntaxError: Invalid regular expression'')
      | Some test \<Rightarrow> Inr (test key))"

text \<open>
  \<open>clear(pattern)\<close>. \<open>keysMatch pattern key\<close> stands for the server's answer to
  \<open>KEYS pattern\<close> (its glob matching); the keys it returns are deleted from the shared
  tier, then every key of the local tier for which \<open>matchesPattern\<close> holds. The loop
  over the local tier builds the same regular expression for every key, so a pattern
  that is not a regular expression throws at the first key, if there is one, and
  removes nothing from the local tier. Without a pattern (absent or empty) both tiers
  are emptied. The result is the error thrown, if any, and the cache afterwards.
\<close>

definition CacheManager_clear ::
  "(string \<Rightarrow> string \<Rightarrow> bool) \<Rightarrow> (string \<Rightarrow> (string \<Rightarrow> bool) option) \<Rightarrow> string option
     \<Rightarrow> 'v CacheManager \<Rightarrow> error option \<times> 'v CacheManager" where
  "CacheManager_clear keysMatch newRegExp pattern c =
     (if falsy pattern then
        (let c1 = c\<lparr>l1Cache := Map.empty\<rparr>
         in (None, if enableL2 (config c1) then c1\<lparr>redis := Map.empty\<rparr> else c1))
      else
        (case pattern of
           None \<Rightarrow> (None, c)
         | Some p \<Rightarrow>
             (let c1 = (if enableL2 (config c)
                        then c\<lparr>redis := (\<lambda>k. if keysMatch p k then None else redis c k)\<rparr>
                        else c)
              in if l1Cache c1 \<noteq> Map.empty \<and> newRegExp (replaceFirstStar p) = None
                 then (Some (Error ''SyntaxError: Invalid regular expression''), c1)
                 else
                   (None,
                    c1\<lparr>l1Cache :=
                         (\<lambda>k. if matchesPattern newRegExp k p = Inr True then None
                              else l1Cache c1 k)\<rparr>))))"

text \<open>
  Instances of the two matchers for patterns made of ordinary characters and \<open>*\<close>:
  the glob of \<open>KEYS\<close>, anchored at both ends, and regular expressions built from
  characters, \<open>.\<close> and a \<open>*\<close> after either, tested anywhere in the key. A source with
  another special character, or with a \<open>*\<close> that has nothing to repeat, is \<open>None\<close>.
\<close>

fun starGlob :: "string \<Rightarrow> string \<Rightarrow> bool" where
  "starGlob [] s = (s = [])"
| "starGlob (p # ps) [] = (p = CHR ''*'' \<and> starGlob ps [])"
| "starGlob (p # ps) (c # cs) =
     (if p = CHR ''*'' then starGlob ps (c # cs) \<or> starGlob (p # ps) cs
      else p = c \<and> starGlob ps cs)"

datatype atom = Lit char | AnyChar

fun atomMatches :: "atom \<Rightarrow> char \<Rightarrow> bool" where
  "atomMatches (Lit c) d = (d = c)"
| "atomMatches AnyChar d = (d \<noteq> CHR 0x0A \<and> d \<noteq> CHR 0x0D)"

definition special :: "char \<Rightarrow> bool" where
  "special c = (c = CHR 0x5C \<or> c \<in> set ''^$+?()[]{}|*'')"

definition atomOf :: "char \<Rightarrow> atom" where
  "atomOf c = (if c = CHR ''.'' then AnyChar else Lit c)"

fun parseRegex :: "string \<Rightarrow> (atom \<times> bool) list option" where
  "parseRegex [] = Some []"
| "parseRegex [c] = (if special c then None else Some [(atomOf c, False)])"
| "parseRegex (c # d # rest) =
     (if special c then None
      else if d = CHR ''*'' then map_option ((#) (atomOf c, True)) (parseRegex rest)
      else map_option ((#) (atomOf c, False)) (parseRegex (d # rest)))"

fun matchHere :: "(atom \<times> bool) list \<Rightarrow> string \<Rightarrow> bool" where
  "matchHere [] s = True"
| "matchHere ((a, starred) # r) [] = (starred \<and> matchHere r [])"
| "matchHere ((a, starred) # r) (d # t) =
     (if starred then matchHere r (d # t) \<or> (atomMatches a d \<and> matchHere ((a, starred) # r) t)
      else atomMatches a d \<and> matchHere r t)"

fun testFrom :: "(atom \<times> bool) list \<Rightarrow> string \<Rightarrow> bool" where
  "testFrom r [] = matchHere r []"
| "testFrom r (c # cs) = (matchHere r (c # cs) \<or> testFrom r cs)"

definition simpleRegExp :: "string \<Rightarrow> (string \<Rightarrow> bool) option" where
  "simpleRegExp source = map_option testFrom (parseRegex source)"

section \<open>Token bucket: the capacity bound\<close>

lemma refill_le_capacity: "tokens (refill now b) \<le> capacity (refill now b)"
  by (simp add: refill_def Let_def)

lemma refill_capacity [simp]: "capacity (refill now b) = capacity b"
  by (simp add: refill_def Let_def)

lemma consume_capacity [simp]: "capacity (snd (consume n now wake b)) = capacity b"
  by (simp add: consume_def Let_def)

lemma consume_le_capacity:
  assumes "0 \<le> n"
  shows "tokens (snd (consume n now wake b)) \<le> capacity b"
proof -
  have a: "tokens (refill now b) \<le> capacity b"
    using refill_le_capacity [of now b] by simp
  have c: "tokens (refill wake (refill now b)) \<le> capacity b"
    using refill_le_capacity [of wake "refill now b"] by simp
  show ?thesis
    using a c assms by (simp add: consume_def Let_def)
qed

lemma bucket_step_capacity [simp]: "capacity (bucket_step b x) = capacity b"
  by (cases x) (simp_all add: getAvailableTokens_def Let_def)

lemma bucket_step_le_capacity:
  assumes "consume_amount_ok x"
  shows "tokens (bucket_step b x) \<le> capacity b"
proof (cases x)
  case (Refill now)
  then show ?thesis using refill_le_capacity [of now b] by simp
next
  case (Consume n now wake)
  then show ?thesis using assms consume_le_capacity [of n now wake b] by simp
next
  case (GetAvailableTokens now)
  then show ?thesis
    using refill_le_capacity [of now b] by (simp add: getAvailableTokens_def Let_def)
qed

lemma foldl_bucket_capacity [simp]: "capacity (foldl bucket_step b ops) = capacity b"
  by (induction ops arbitrary: b) simp_all

lemma foldl_bucket_le_capacity:
  assumes "tokens b \<le> capacity b" and "list_all consume_amount_ok ops"
  shows "tokens (foldl bucket_step b ops) \<le> capacity b"
  using assms
proof (induction ops arbitrary: b)
  case Nil
  then show ?case by simp
next
  case (Cons x xs)
  have "tokens (bucket_step b x) \<le> capacity (bucket_step b x)"
    using Cons.prems bucket_step_le_capacity [of x b] by simp
  moreover have "list_all consume_amount_ok xs"
    using Cons.prems by simp
  ultimately have "tokens (foldl bucket_step (bucket_step b x) xs) \<le> capacity (bucket_step b x)"
    by (rule Cons.IH)
  then show ?case by simp
qed

text \<open>
  Claim C9, as amended. A bucket starts at its capacity; after any sequence of refills,
  consumes of a non-negative number of tokens and reads of \<open>getAvailableTokens\<close>, the
  token count is at most the configured capacity, the capacity is the one given to the
  constructor, and \<open>getAvailableTokens\<close> reports at most the capacity.
\<close>

theorem C9_tokens_never_exceed_capacity:
  assumes "list_all consume_amount_ok ops"
  shows "tokens (bucket_run cap rate t0 ops) \<le> capacity (bucket_run cap rate t0 ops)
       \<and> capacity (bucket_run cap rate t0 ops) = cap
       \<and> of_int (fst (getAvailableTokens now (bucket_run cap rate t0 ops))) \<le> cap"
proof -
  let ?b = "bucket_run cap rate t0 ops"
  have init: "tokens (TokenBucket_new cap rate t0) \<le> capacity (TokenBucket_new cap rate t0)"
    by (simp add: TokenBucket_new_def)
  have cap: "capacity ?b = cap"
    by (simp add: bucket_run_def TokenBucket_new_def)
  have le: "tokens ?b \<le> capacity ?b"
    unfolding bucket_run_def
    using foldl_bucket_le_capacity [OF init assms] by simp
  have "tokens (refill now ?b) \<le> cap"
    using refill_le_capacity [of now ?b] cap by simp
  moreover have "of_int \<lfloor>tokens (refill now ?b)\<rfloor> \<le> tokens (refill now ?b)"
    by (rule of_int_floor_le)
  ultimately have "of_int \<lfloor>tokens (refill now ?b)\<rfloor> \<le> cap"
    by (rule order_trans [rotated])
  then have "of_int (fst (getAvailableTokens now ?b)) \<le> cap"
    by (simp add: getAvailableTokens_def Let_def)
  with cap le show ?thesis by simp
qed

text \<open>
  A bucket of capacity 10 refilling 2 tokens per second: one token consumed, a refill a
  second later, twelve tokens consumed (more than the bucket holds: one sleep), a read.
\<close>

theorem C9_witness:
  "list_all consume_amount_ok
     [Consume 1 0 0, Refill 1000, Consume 12 1500 2500, GetAvailableTokens 3000]
   \<and> tokens (bucket_run 10 2 0
        [Consume 1 0 0, Refill 1000, Consume 12 1500 2500, GetAvailableTokens 3000]) \<le> 10
   \<and> tokens (bucket_run 10 2 0
        [Consume 1 0 0, Refill 1000, Consume 12 1500 2500, GetAvailableTokens 3000]) = - 1"
  using C9_tokens_never_exceed_capacity
    [of "[Consume 1 0 0, Refill 1000, Consume 12 1500 2500, GetAvailableTokens 3000]" 10 2 0 0]
  by (simp add: bucket_run_def TokenBucket_new_def consume_def refill_def
        getAvailableTokens_def Let_def)

text \<open>
  Claim C9 as stated fails for a consume of a negative amount, which \<open>consume\<close> does not
  refuse: \<open>consume(-1)\<close> on a full bucket of capacity 10 leaves 11 tokens.
\<close>

theorem C9_counterexample:
  "tokens (snd (consume (- 1) 0 0 (TokenBucket_new 10 2 0))) = 11
   \<and> capacity (snd (consume (- 1) 0 0 (TokenBucket_new 10 2 0))) = 10"
  by (simp add: TokenBucket_new_def consume_def refill_def Let_def)

section \<open>Circuit breaker: the open gate and the failure counter\<close>

lemma trailing_failures_snoc [simp]:
  "trailing_failures (tr @ [True]) = 0"
  "trailing_failures (tr @ [False]) = trailing_failures tr + 1"
  "trailing_failures [] = 0"
  by (simp_all add: trailing_failures_def)

lemma trailing_failures_nonneg: "0 \<le> trailing_failures tr"
  by (simp add: trailing_failures_def)

lemma breaker_inv_step:
  assumes "breaker_inv thr s"
  shows "breaker_inv thr (attempt_step s a)"
proof -
  obtain tr cb where s: "s = (tr, cb)" by (cases s)
  obtain now fin ok where a: "a = Attempt now fin ok" by (cases a)
  have nn: "0 \<le> trailing_failures tr" by (rule trailing_failures_nonneg)
  show ?thesis
    using assms nn unfolding s a
    by (cases "state cb"; cases ok)
       (auto simp: breaker_inv_def execute_def gate_def logged_call_def onSuccess_def
          onFailure_def Let_def)
qed

lemma breaker_inv_run: "breaker_inv thr (breaker_run thr tmo as)"
  unfolding breaker_run_def
proof (induction as rule: rev_induct)
  case Nil
  show ?case by (simp add: breaker_inv_def CircuitBreaker_new_def)
next
  case (snoc a as)
  then show ?case by (simp add: breaker_inv_step)
qed

lemma execute_success_resets:
  assumes "execute now fin fn w cb = (Inr r, w', cb')"
  shows "failureCount cb' = 0"
  using assms
  by (auto simp: execute_def onSuccess_def onFailure_def Let_def
           split: sum.splits prod.splits if_splits)

text \<open>
  Claim C4. For a breaker in state \<open>OPEN\<close>: while the time since the last recorded
  failure is at most the cool-down (\<open>timeout\<close>), \<open>execute(fn)\<close> throws the breaker-open
  error whatever \<open>fn\<close> is, leaves the world \<open>fn\<close> acts on untouched (it is not invoked)
  and leaves the breaker as it was. The gate sets \<open>HALF_OPEN\<close> exactly when a call
  arrives after the cool-down has elapsed; no other operation of the class moves an open
  breaker to \<open>HALF_OPEN\<close>.
\<close>

theorem C4_open_breaker_fails_fast:
  assumes "state cb = OPEN"
  shows "(now - lastFailureTime cb \<le> timeout cb \<longrightarrow>
            execute now fin fn w cb = (Inl (Error ''Circuit breaker is OPEN''), w, cb))
       \<and> (timeout cb < now - lastFailureTime cb \<longrightarrow>
            gate now cb = Inr (cb\<lparr>state := HALF_OPEN\<rparr>))
       \<and> (\<forall>cb'. gate now cb = Inr cb' \<longrightarrow>
            timeout cb < now - lastFailureTime cb \<and> state cb' = HALF_OPEN)
       \<and> state (onSuccess cb) = OPEN \<and> state (onFailure fin cb) = OPEN"
  using assms
  by (auto simp: execute_def gate_def onSuccess_def onFailure_def Let_def)

text \<open>
  A breaker opened by its fifth failure at time 1000, cool-down one minute: a call at
  30000 is refused without running the operation (the log stays empty), a call at
  61001 is let through as the probe.
\<close>

theorem C4_witness:
  "state \<lparr>state = OPEN, failureCount = 5, lastFailureTime = 1000, threshold = 5,
          timeout = 60000\<rparr> = OPEN
   \<and> execute 30000 30001 (logged_call True) []
        \<lparr>state = OPEN, failureCount = 5, lastFailureTime = 1000, threshold = 5, timeout = 60000\<rparr>
      = (Inl (Error ''Circuit breaker is OPEN''), [],
         \<lparr>state = OPEN, failureCount = 5, lastFailureTime = 1000, threshold = 5, timeout = 60000\<rparr>)
   \<and> gate 61001
        \<lparr>state = OPEN, failureCount = 5, lastFailureTime = 1000, threshold = 5, timeout = 60000\<rparr>
      = Inr \<lparr>state = HALF_OPEN, failureCount = 5, lastFailureTime = 1000, threshold = 5,
             timeout = 60000\<rparr>"
  using C4_open_breaker_fails_fast
    [of "\<lparr>state = OPEN, failureCount = 5, lastFailureTime = 1000, threshold = 5, timeout = 60000\<rparr>"
        30000 30001 "logged_call True" "[]"]
  by (simp add: gate_def)

text \<open>
  Claim C10. Every \<open>execute\<close> that returns a result (the guarded operation was invoked
  and succeeded) leaves the failure counter at zero, whatever the state before; so does
  \<open>onSuccess\<close> itself. In every sequential history from a new breaker the counter equals
  the number of invoked operations that failed since the last one that succeeded, and the
  breaker is \<open>OPEN\<close> only when that number has reached the threshold (and is positive).
\<close>

theorem C10_success_resets_failure_count:
  "(execute now fin fn w cb = (Inr r, w', cb') \<longrightarrow> failureCount cb' = 0)
   \<and> failureCount (onSuccess cb) = 0
   \<and> failureCount (snd (breaker_run thr tmo as))
       = trailing_failures (fst (breaker_run thr tmo as))
   \<and> (state (snd (breaker_run thr tmo as)) = OPEN \<longrightarrow>
        thr \<le> trailing_failures (fst (breaker_run thr tmo as))
        \<and> 0 < trailing_failures (fst (breaker_run thr tmo as)))"
proof -
  have "breaker_inv thr (breaker_run thr tmo as)" by (rule breaker_inv_run)
  then have inv:
    "failureCount (snd (breaker_run thr tmo as))
       = trailing_failures (fst (breaker_run thr tmo as))"
    "state (snd (breaker_run thr tmo as)) = OPEN \<longrightarrow>
        thr \<le> trailing_failures (fst (breaker_run thr tmo as))
        \<and> 0 < trailing_failures (fst (breaker_run thr tmo as))"
    by (auto simp: breaker_inv_def split: prod.splits)
  have "failureCount (onSuccess cb) = 0" by (simp add: onSuccess_def Let_def)
  with inv execute_success_resets [of now fin fn w cb r w' cb'] show ?thesis by blast
qed

text \<open>
  Threshold 2, cool-down one second: a failure, a success (counter back to zero), two
  failures (open), a refused call, and a failed probe after the cool-down. The log holds
  the five operations that ran; three failures trail the last success.
\<close>

theorem C10_witness:
  "execute 2 3 (logged_call True) [False]
      \<lparr>state = CLOSED, failureCount = 1, lastFailureTime = 1, threshold = 2, timeout = 1000\<rparr>
    = (Inr (), [False, True],
       \<lparr>state = CLOSED, failureCount = 0, lastFailureTime = 1, threshold = 2, timeout = 1000\<rparr>)
   \<and> breaker_run 2 1000
        [Attempt 0 1 False, Attempt 2 3 True, Attempt 4 5 False, Attempt 6 7 False,
         Attempt 8 9 True, Attempt 2000 2001 False]
      = ([False, True, False, False, False],
         \<lparr>state = OPEN, failureCount = 3, lastFailureTime = 2001, threshold = 2,
          timeout = 1000\<rparr>)
   \<and> trailing_failures [False, True, False, False, False] = 3"
  using C10_success_resets_failure_count
    [of 2 3 "logged_call True" "[False]"
        "\<lparr>state = CLOSED, failureCount = 1, lastFailureTime = 1, threshold = 2, timeout = 1000\<rparr>"
        "()" "[False, True]"
        "\<lparr>state = CLOSED, failureCount = 0, lastFailureTime = 1, threshold = 2, timeout = 1000\<rparr>"
        2 1000
        "[Attempt 0 1 False, Attempt 2 3 True, Attempt 4 5 False, Attempt 6 7 False,
          Attempt 8 9 True, Attempt 2000 2001 False]"]
  by (simp add: breaker_run_def CircuitBreaker_new_def execute_def gate_def logged_call_def
        onSuccess_def onFailure_def trailing_failures_def Let_def)

section \<open>Rate limiting: what an admission consumes and how long it waits\<close>

lemma consume_tokens:
  "tokens (snd (consume n now wake b)) = tokens (before_decrement n now wake b) - n"
  by (simp add: consume_def before_decrement_def Let_def)

lemma consume_delay:
  "fst (consume n now wake b) =
     (if tokens (refill now b) < n then Some (waitTime n (refill now b)) else None)"
  by (simp add: consume_def Let_def)

lemma refill_refillRate [simp]: "refillRate (refill now b) = refillRate b"
  by (simp add: refill_def Let_def)

lemma refill_lastRefill [simp]: "lastRefill (refill now b) = now"
  by (simp add: refill_def Let_def)

lemma consume_refillRate [simp]: "refillRate (snd (consume n now wake b)) = refillRate b"
  by (simp add: consume_def Let_def)

text \<open>
  For a call that no other call on the bucket interleaves with: when the timer honours
  the sleep asked for, the bucket holds at least \<open>n\<close> tokens just before the decrement.
\<close>

lemma consume_available:
  assumes rate: "0 < refillRate b" and cap: "n \<le> capacity b"
    and timer: "timer_honoured (fst (consume n now wake b)) now wake"
  shows "n \<le> tokens (before_decrement n now wake b)"
proof (cases "tokens (refill now b) < n")
  case False
  then show ?thesis by (simp add: before_decrement_def Let_def)
next
  case True
  let ?b1 = "refill now b"
  have ms: "((n - tokens ?b1) / refillRate b) * 1000 \<le> of_int (wake - now)"
    using timer True rate by (simp add: consume_delay timer_honoured_def waitTime_def)
  have "(n - tokens ?b1) \<le> (of_int (wake - now) / 1000) * refillRate b"
    using ms rate by (simp add: field_simps)
  then have "n \<le> tokens ?b1 + (of_int (wake - now) / 1000) * refillRate b"
    by simp
  then have "n \<le> tokens (refill wake ?b1)"
    using cap by (simp add: refill_def [of wake] Let_def)
  with True show ?thesis by (simp add: before_decrement_def Let_def)
qed

text \<open>
  A call that nobody interleaves with is its two stretches one after the other; the
  lemmas above are about such a call.
\<close>

lemma consume_enter_then_resume:
  "consume n now wake b =
     (case consume_enter n now b of
        (None, b1) \<Rightarrow> (None, b1)
      | (Some d, b1) \<Rightarrow> (Some d, consume_resume n wake b1))"
  by (simp add: consume_def consume_enter_def consume_resume_def Let_def)

text \<open>
  Whatever the other callers did during the sleep, the second stretch takes exactly
  \<open>n\<close> tokens from what its refill finds, and so does a first stretch that does not
  sleep.
\<close>

lemma consume_resume_tokens:
  "tokens (consume_resume n wake b) = tokens (refill wake b) - n"
  by (simp add: consume_resume_def Let_def)

lemma consume_enter_tokens:
  "fst (consume_enter n now b) = None
     \<Longrightarrow> tokens (snd (consume_enter n now b)) = tokens (refill now b) - n"
  by (simp add: consume_enter_def Let_def split: if_splits)

text \<open>
  Two callers on an empty bucket of rate 2, both entering at time 0: each is told to
  sleep 500 ms. The first to wake finds the token that has arrived and takes it; the
  second, its timer honoured as well, finds none after its refill and takes one all the
  same, leaving \<open>-1\<close>: \<open>consume\<close> does not look at the bucket again after the sleep.
\<close>

lemma consume_interleaved_takes_from_empty_bucket:
  "tokens (bucket_run 10 2 0 (replicate 10 (Consume 1 0 0))) = 0
   \<and> fst (consume_enter 1 0 (bucket_run 10 2 0 (replicate 10 (Consume 1 0 0)))) = Some (Ms 500)
   \<and> fst (consume_enter 1 0
            (snd (consume_enter 1 0 (bucket_run 10 2 0 (replicate 10 (Consume 1 0 0))))))
       = Some (Ms 500)
   \<and> tokens (refill 500
        (snd (consume_enter 1 0
          (snd (consume_enter 1 0 (bucket_run 10 2 0 (replicate 10 (Consume 1 0 0)))))))) = 1
   \<and> tokens (refill 500 (consume_resume 1 500
        (snd (consume_enter 1 0
          (snd (consume_enter 1 0 (bucket_run 10 2 0 (replicate 10 (Consume 1 0 0))))))))) = 0
   \<and> tokens (consume_resume 1 500 (consume_resume 1 500
        (snd (consume_enter 1 0
          (snd (consume_enter 1 0 (bucket_run 10 2 0 (replicate 10 (Consume 1 0 0))))))))) = - 1"
  by code_simp

lemma consumeToken_Some:
  assumes "bucket_for rl p now = Some b"
  shows "consumeToken p now wake rl =
           (fst (consume 1 now wake b), rl\<lparr>buckets := (buckets rl)(p \<mapsto> snd (consume 1 now wake b))\<rparr>)"
  using assms
  by (auto simp: consumeToken_def bucket_for_def Let_def split: option.splits prod.splits)

lemma consumeToken_None:
  assumes "bucket_for rl p now = None"
  shows "consumeToken p now wake rl = (None, rl)"
  using assms
  by (auto simp: consumeToken_def bucket_for_def Let_def split: option.splits prod.splits)

lemma getEndpointPattern_cases:
  "getEndpointPattern ls endpoint = ''*'' \<or> getEndpointPattern ls endpoint \<in> fst ` set ls"
  by (induction ls endpoint rule: getEndpointPattern.induct) auto

lemma setupLimits_pattern:
  "getEndpointPattern setupLimits endpoint \<in> {''/quotes/'', ''/orders/'', ''/accounts/'', ''*''}"
  using getEndpointPattern_cases [of setupLimits endpoint]
  by (auto simp: setupLimits_def)

lemma bucket_for_wf:
  assumes "limiter_wf rl" and "p \<in> {''/quotes/'', ''/orders/'', ''/accounts/'', ''*''}"
  shows "\<exists>b l. bucket_for rl p now = Some b \<and> map_of setupLimits p = Some l
            \<and> capacity b = limitCapacity l \<and> refillRate b = limitRefillRate l"
proof (cases "buckets rl p")
  case (Some b)
  then show ?thesis using assms(1) by (auto simp: limiter_wf_def bucket_for_def)
next
  case None
  then show ?thesis using assms
    by (auto simp: limiter_wf_def bucket_for_def setupLimits_def TokenBucket_new_def)
qed

lemma setupLimits_positive:
  assumes "map_of setupLimits p = Some l"
  shows "1 \<le> limitCapacity l \<and> 0 < limitRefillRate l"
  using assms by (auto simp: setupLimits_def split: if_splits)

lemma limiter_wf_update:
  assumes "limiter_wf rl" and "map_of setupLimits p = Some l"
    and "capacity b = limitCapacity l" and "refillRate b = limitRefillRate l"
  shows "limiter_wf (rl\<lparr>buckets := (buckets rl)(p \<mapsto> b)\<rparr>)"
  using assms by (auto simp: limiter_wf_def)

lemma limiter_wf_consumeToken:
  assumes "limiter_wf rl"
  shows "limiter_wf (snd (consumeToken p now wake rl))"
proof (cases "bucket_for rl p now")
  case None
  then show ?thesis using assms by (simp add: consumeToken_None)
next
  case (Some b)
  have "\<exists>l. map_of setupLimits p = Some l \<and> capacity b = limitCapacity l
            \<and> refillRate b = limitRefillRate l"
    using Some assms
    by (auto simp: bucket_for_def limiter_wf_def TokenBucket_new_def split: option.splits)
  then obtain l where "map_of setupLimits p = Some l" "capacity b = limitCapacity l"
      "refillRate b = limitRefillRate l" by blast
  then show ?thesis
    using assms Some limiter_wf_update [of rl p l "snd (consume 1 now wake b)"]
    by (simp add: consumeToken_Some)
qed

lemma checkLimit_eq:
  "checkLimit endpoint t1 w1 t2 w2 rl =
     (let r1 = consumeToken (getEndpointPattern (limits rl) endpoint) t1 w1 rl;
          r2 = consumeToken ''*'' t2 w2 (snd r1)
      in ((fst r1, fst r2), snd r2))"
  by (simp add: checkLimit_def Let_def case_prod_beta)

lemma limiter_wf_checkLimit:
  assumes "limiter_wf rl"
  shows "limiter_wf (snd (checkLimit endpoint t1 w1 t2 w2 rl))"
proof -
  let ?p = "getEndpointPattern (limits rl) endpoint"
  have "limiter_wf (snd (consumeToken ''*'' t2 w2 (snd (consumeToken ?p t1 w1 rl))))"
    using assms by (intro limiter_wf_consumeToken)
  then show ?thesis
    by (simp add: checkLimit_eq Let_def)
qed

lemma limiter_wf_new: "limiter_wf RateLimiter_new"
  by (simp add: limiter_wf_def RateLimiter_new_def)

lemma bucket_for_other:
  assumes "q \<noteq> p"
  shows "bucket_for (rl\<lparr>buckets := (buckets rl)(p \<mapsto> b)\<rparr>) q now = bucket_for rl q now"
  using assms by (simp add: bucket_for_def split: option.splits)

lemma bucket_for_same:
  "bucket_for (rl\<lparr>buckets := (buckets rl)(p \<mapsto> b)\<rparr>) p now = Some b"
  by (simp add: bucket_for_def)

lemma checkLimit_matched:
  assumes wf: "limiter_wf rl" and p: "getEndpointPattern setupLimits endpoint = p" and ne: "p \<noteq> ''*''"
  shows "\<exists>b g. bucket_for rl p t1 = Some b \<and> bucket_for rl ''*'' t2 = Some g
           \<and> checkLimit endpoint t1 w1 t2 w2 rl =
               ((fst (consume 1 t1 w1 b), fst (consume 1 t2 w2 g)),
                rl\<lparr>buckets := (buckets rl)(p \<mapsto> snd (consume 1 t1 w1 b),
                                             ''*'' \<mapsto> snd (consume 1 t2 w2 g))\<rparr>)
           \<and> 1 \<le> capacity b \<and> 0 < refillRate b \<and> 1 \<le> capacity g \<and> 0 < refillRate g"
proof -
  have lim: "limits rl = setupLimits" using wf by (simp add: limiter_wf_def)
  have pin: "p \<in> {''/quotes/'', ''/orders/'', ''/accounts/'', ''*''}"
    using setupLimits_pattern [of endpoint] p by simp
  obtain b l where b: "bucket_for rl p t1 = Some b" "map_of setupLimits p = Some l"
      "capacity b = limitCapacity l" "refillRate b = limitRefillRate l"
    using bucket_for_wf [OF wf pin, of t1] by blast
  obtain g k where g: "bucket_for rl ''*'' t2 = Some g" "map_of setupLimits ''*'' = Some k"
      "capacity g = limitCapacity k" "refillRate g = limitRefillRate k"
    using bucket_for_wf [OF wf, of "''*''" t2] by blast
  have g': "bucket_for (rl\<lparr>buckets := (buckets rl)(p \<mapsto> snd (consume 1 t1 w1 b))\<rparr>) ''*'' t2 = Some g"
    using g(1) ne bucket_for_other [of "''*''" p rl "snd (consume 1 t1 w1 b)" t2] by simp
  have eq: "checkLimit endpoint t1 w1 t2 w2 rl =
               ((fst (consume 1 t1 w1 b), fst (consume 1 t2 w2 g)),
                rl\<lparr>buckets := (buckets rl)(p \<mapsto> snd (consume 1 t1 w1 b),
                                             ''*'' \<mapsto> snd (consume 1 t2 w2 g))\<rparr>)"
    using p lim by (simp add: checkLimit_eq Let_def consumeToken_Some [OF b(1)] consumeToken_Some [OF g'])
  show ?thesis
    using b g eq setupLimits_positive [OF b(2)] setupLimits_positive [OF g(2)] by auto
qed

lemma checkLimit_unmatched:
  assumes wf: "limiter_wf rl" and p: "getEndpointPattern setupLimits endpoint = ''*''"
  shows "\<exists>g. bucket_for rl ''*'' t1 = Some g
           \<and> checkLimit endpoint t1 w1 t2 w2 rl =
               ((fst (consume 1 t1 w1 g), fst (consume 1 t2 w2 (snd (consume 1 t1 w1 g)))),
                rl\<lparr>buckets := (buckets rl)(''*'' \<mapsto> snd (consume 1 t2 w2 (snd (consume 1 t1 w1 g))))\<rparr>)
           \<and> 1 \<le> capacity g \<and> 0 < refillRate g"
proof -
  have lim: "limits rl = setupLimits" using wf by (simp add: limiter_wf_def)
  obtain g k where g: "bucket_for rl ''*'' t1 = Some g" and k: "map_of setupLimits ''*'' = Some k"
      "capacity g = limitCapacity k" "refillRate g = limitRefillRate k"
    using bucket_for_wf [OF wf, of "''*''" t1] by blast
  have g': "bucket_for (rl\<lparr>buckets := (buckets rl)(''*'' \<mapsto> snd (consume 1 t1 w1 g))\<rparr>) ''*'' t2
              = Some (snd (consume 1 t1 w1 g))"
    by (rule bucket_for_same)
  have "checkLimit endpoint t1 w1 t2 w2 rl =
               ((fst (consume 1 t1 w1 g), fst (consume 1 t2 w2 (snd (consume 1 t1 w1 g)))),
                rl\<lparr>buckets := (buckets rl)(''*'' \<mapsto> snd (consume 1 t2 w2 (snd (consume 1 t1 w1 g))))\<rparr>)"
    using p lim by (simp add: checkLimit_eq Let_def consumeToken_Some [OF g] consumeToken_Some [OF g'])
  with g k setupLimits_positive [OF k(1)] show ?thesis by auto
qed

lemma client_checkLimit_frame:
  assumes "q \<noteq> endpoint"
  shows "snd (client_checkLimit endpoint now wake bs) q = bs q"
  using assms
  by (simp add: client_checkLimit_def getOrCreateBucket_def Let_def split: option.splits)

lemma client_checkLimit_tokens:
  "\<exists>b'. snd (client_checkLimit endpoint now wake bs) endpoint = Some b'
        \<and> bucketTokens b' = bucketTokens (client_before_decrement endpoint now wake bs) - 1"
  by (simp add: client_checkLimit_def client_before_decrement_def getOrCreateBucket_def Let_def
        split: option.splits)

text \<open>
  Claim C7 as stated fails. The client's rate limiter keeps one bucket per endpoint
  string and no global bucket: after \<open>checkLimit('/orders/')\<close> on a new limiter the
  only bucket is the endpoint's, with one of its ten tokens gone, and no second token
  has been taken anywhere.
\<close>

theorem C7_counterexample:
  "dom (snd (client_checkLimit ''/orders/'' 0 0 Map.empty)) = {''/orders/''}
   \<and> map_option bucketTokens (snd (client_checkLimit ''/orders/'' 0 0 Map.empty) ''/orders/'')
       = Some 9"
  by (simp add: client_checkLimit_def getOrCreateBucket_def getConfigForEndpoint_def
        endpointLimits_def refillBucket_def Let_def)









text \<open>
  Claim C7, as amended. In \<open>RateLimiter.checkLimit\<close>, for a limiter whose buckets
  come from the built-in limits: an endpoint containing one of the patterns
  \<open>/quotes/\<close>, \<open>/orders/\<close>, \<open>/accounts/\<close> takes exactly one token from that pattern's
  bucket and then exactly one from the global bucket \<open>*\<close>, and changes no other
  bucket. An endpoint containing no pattern has \<open>*\<close> as its pattern and takes two
  tokens from the global bucket. The client's \<open>checkLimit\<close> has no global bucket: it
  takes exactly one token from the bucket keyed by the endpoint string and changes no
  other bucket. Each token count is compared with the bucket just before its
  decrement, after the refills of the call; a call that others interleave with takes
  one token from what its last refill finds all the same (\<open>consume_resume_tokens\<close>,
  \<open>consume_enter_tokens\<close>). Whether a token is there at that moment is not part of
  the statement: see \<open>consume_interleaved_takes_from_empty_bucket\<close>.
\<close>

theorem C7_one_token_from_each_bucket:
  assumes wf: "limiter_wf rl"
  shows
   "(getEndpointPattern setupLimits endpoint \<noteq> ''*'' \<longrightarrow>
      (\<exists>b g. bucket_for rl (getEndpointPattern setupLimits endpoint) t1 = Some b
           \<and> bucket_for rl ''*'' t2 = Some g
           \<and> snd (checkLimit endpoint t1 w1 t2 w2 rl) =
               rl\<lparr>buckets := (buckets rl)
                    (getEndpointPattern setupLimits endpoint \<mapsto> snd (consume 1 t1 w1 b),
                     ''*'' \<mapsto> snd (consume 1 t2 w2 g))\<rparr>
           \<and> tokens (snd (consume 1 t1 w1 b)) = tokens (before_decrement 1 t1 w1 b) - 1
           \<and> tokens (snd (consume 1 t2 w2 g)) = tokens (before_decrement 1 t2 w2 g) - 1))
   \<and> (getEndpointPattern setupLimits endpoint = ''*'' \<longrightarrow>
      (\<exists>g. bucket_for rl ''*'' t1 = Some g
           \<and> snd (checkLimit endpoint t1 w1 t2 w2 rl) =
               rl\<lparr>buckets := (buckets rl)
                    (''*'' \<mapsto> snd (consume 1 t2 w2 (snd (consume 1 t1 w1 g))))\<rparr>
           \<and> tokens (snd (consume 1 t1 w1 g)) = tokens (before_decrement 1 t1 w1 g) - 1
           \<and> tokens (snd (consume 1 t2 w2 (snd (consume 1 t1 w1 g))))
               = tokens (before_decrement 1 t2 w2 (snd (consume 1 t1 w1 g))) - 1))
   \<and> limiter_wf (snd (checkLimit endpoint t1 w1 t2 w2 rl))
   \<and> (\<forall>q. q \<noteq> endpoint \<longrightarrow> snd (client_checkLimit endpoint now wake bs) q = bs q)
   \<and> (\<exists>b'. snd (client_checkLimit endpoint now wake bs) endpoint = Some b'
           \<and> bucketTokens b' = bucketTokens (client_before_decrement endpoint now wake bs) - 1)"
proof -
  have m: "getEndpointPattern setupLimits endpoint \<noteq> ''*'' \<longrightarrow>
      (\<exists>b g. bucket_for rl (getEndpointPattern setupLimits endpoint) t1 = Some b
           \<and> bucket_for rl ''*'' t2 = Some g
           \<and> snd (checkLimit endpoint t1 w1 t2 w2 rl) =
               rl\<lparr>buckets := (buckets rl)
                    (getEndpointPattern setupLimits endpoint \<mapsto> snd (consume 1 t1 w1 b),
                     ''*'' \<mapsto> snd (consume 1 t2 w2 g))\<rparr>
           \<and> tokens (snd (consume 1 t1 w1 b)) = tokens (before_decrement 1 t1 w1 b) - 1
           \<and> tokens (snd (consume 1 t2 w2 g)) = tokens (before_decrement 1 t2 w2 g) - 1)"
  proof
    assume ne: "getEndpointPattern setupLimits endpoint \<noteq> ''*''"
    obtain b g where bg: "bucket_for rl (getEndpointPattern setupLimits endpoint) t1 = Some b"
        "bucket_for rl ''*'' t2 = Some g"
        "checkLimit endpoint t1 w1 t2 w2 rl =
               ((fst (consume 1 t1 w1 b), fst (consume 1 t2 w2 g)),
                rl\<lparr>buckets := (buckets rl)(getEndpointPattern setupLimits endpoint \<mapsto> snd (consume 1 t1 w1 b),
                                             ''*'' \<mapsto> snd (consume 1 t2 w2 g))\<rparr>)"
        "1 \<le> capacity b" "0 < refillRate b" "1 \<le> capacity g" "0 < refillRate g"
      using checkLimit_matched [OF wf refl ne, of t1 t2 w1 w2] by blast
    show "\<exists>b g. bucket_for rl (getEndpointPattern setupLimits endpoint) t1 = Some b
           \<and> bucket_for rl ''*'' t2 = Some g
           \<and> snd (checkLimit endpoint t1 w1 t2 w2 rl) =
               rl\<lparr>buckets := (buckets rl)
                    (getEndpointPattern setupLimits endpoint \<mapsto> snd (consume 1 t1 w1 b),
                     ''*'' \<mapsto> snd (consume 1 t2 w2 g))\<rparr>
           \<and> tokens (snd (consume 1 t1 w1 b)) = tokens (before_decrement 1 t1 w1 b) - 1
           \<and> tokens (snd (consume 1 t2 w2 g)) = tokens (before_decrement 1 t2 w2 g) - 1"
      using bg consume_tokens [of 1 t1 w1 b] consume_tokens [of 1 t2 w2 g]
      by (intro exI [of _ b] exI [of _ g]) simp
  qed
  have u: "getEndpointPattern setupLimits endpoint = ''*'' \<longrightarrow>
      (\<exists>g. bucket_for rl ''*'' t1 = Some g
           \<and> snd (checkLimit endpoint t1 w1 t2 w2 rl) =
               rl\<lparr>buckets := (buckets rl)
                    (''*'' \<mapsto> snd (consume 1 t2 w2 (snd (consume 1 t1 w1 g))))\<rparr>
           \<and> tokens (snd (consume 1 t1 w1 g)) = tokens (before_decrement 1 t1 w1 g) - 1
           \<and> tokens (snd (consume 1 t2 w2 (snd (consume 1 t1 w1 g))))
               = tokens (before_decrement 1 t2 w2 (snd (consume 1 t1 w1 g))) - 1)"
  proof
    assume eq: "getEndpointPattern setupLimits endpoint = ''*''"
    obtain g where g: "bucket_for rl ''*'' t1 = Some g"
        "checkLimit endpoint t1 w1 t2 w2 rl =
               ((fst (consume 1 t1 w1 g), fst (consume 1 t2 w2 (snd (consume 1 t1 w1 g)))),
                rl\<lparr>buckets := (buckets rl)(''*'' \<mapsto> snd (consume 1 t2 w2 (snd (consume 1 t1 w1 g))))\<rparr>)"
      using checkLimit_unmatched [OF wf eq, of t1 w1 t2 w2] by blast
    show "\<exists>g. bucket_for rl ''*'' t1 = Some g
           \<and> snd (checkLimit endpoint t1 w1 t2 w2 rl) =
               rl\<lparr>buckets := (buckets rl)
                    (''*'' \<mapsto> snd (consume 1 t2 w2 (snd (consume 1 t1 w1 g))))\<rparr>
           \<and> tokens (snd (consume 1 t1 w1 g)) = tokens (before_decrement 1 t1 w1 g) - 1
           \<and> tokens (snd (consume 1 t2 w2 (snd (consume 1 t1 w1 g))))
               = tokens (before_decrement 1 t2 w2 (snd (consume 1 t1 w1 g))) - 1"
      using g consume_tokens [of 1 t1 w1 g]
        consume_tokens [of 1 t2 w2 "snd (consume 1 t1 w1 g)"]
      by (intro exI [of _ g]) simp
  qed
  show ?thesis
    using m u limiter_wf_checkLimit [OF wf, of endpoint t1 w1 t2 w2]
      client_checkLimit_frame [of _ endpoint now wake bs]
      client_checkLimit_tokens [of endpoint now wake bs]
    by blast
qed

text \<open>
  From a new limiter, \<open>/orders/123/\<close> leaves 9 of 10 tokens in the \<open>/orders/\<close> bucket
  and 99 of 100 in the global one; \<open>/instruments/\<close> matches no pattern and leaves 98 in
  the global bucket.
\<close>

theorem C7_witness:
  "limiter_wf RateLimiter_new
   \<and> getEndpointPattern setupLimits ''/orders/123/'' = ''/orders/''
   \<and> map_option tokens (buckets (snd (checkLimit ''/orders/123/'' 0 0 0 0 RateLimiter_new)) ''/orders/'') = Some 9
   \<and> map_option tokens (buckets (snd (checkLimit ''/orders/123/'' 0 0 0 0 RateLimiter_new)) ''*'') = Some 99
   \<and> getEndpointPattern setupLimits ''/instruments/'' = ''*''
   \<and> map_option tokens (buckets (snd (checkLimit ''/instruments/'' 0 0 0 0 RateLimiter_new)) ''*'') = Some 98"
  using C7_one_token_from_each_bucket [OF limiter_wf_new, of "''/orders/123/''" 0 0 0 0 0 0 Map.empty]
    limiter_wf_new
  by (simp add: checkLimit_def consumeToken_def RateLimiter_new_def setupLimits_def
        consume_def refill_def TokenBucket_new_def Let_def)

section \<open>Cache: write, read back, invalidate\<close>

lemma set_config [simp]: "config (snd (CacheManager_set now key v ttl c)) = config c"
  by (simp add: CacheManager_set_def Let_def split: sum.splits)

lemma set_l1:
  assumes "enableL1 (config c)"
  shows "l1Cache (snd (CacheManager_set now key v (Some ttl) c)) key
           = Some \<lparr>data = v, expiresAt = now + min (actualTTL (Some ttl) (config c)) 60000\<rparr>"
  using assms by (simp add: CacheManager_set_def Let_def split: sum.splits)

lemma set_redis:
  assumes "enableL2 (config c)" and "0 < ttl"
  shows "redis (snd (CacheManager_set now key v (Some ttl) c)) key
           = Some \<lparr>stored = v, expireAt = now + ttl * 1000\<rparr>"
    and "fst (CacheManager_set now key v (Some ttl) c) = None"
  using assms
  by (simp_all add: CacheManager_set_def Let_def redis_setex_def actualTTL_def split: sum.splits)


lemma get_after_set_hit:
  assumes l2: "enableL2 (config c)" and ttl: "0 < ttl" and t: "now \<le> t" "t < now + ttl * 1000"
  shows "fst (CacheManager_get t key (snd (CacheManager_set now key v (Some ttl) c))) = Some v"
proof -
  let ?c = "snd (CacheManager_set now key v (Some ttl) c)"
  have r: "redis_get t (redis ?c) key = Some v"
    using set_redis(1) [OF l2 ttl, of now key v] t by (simp add: redis_get_def)
  show ?thesis
  proof (cases "enableL1 (config c)")
    case True
    then show ?thesis
      using r l2 set_l1 [OF True, of now key v ttl]
      by (simp add: CacheManager_get_def Let_def)
  next
    case False
    then show ?thesis
      using r l2 by (simp add: CacheManager_get_def Let_def)
  qed
qed

lemma get_after_set_miss:
  assumes ttl: "0 < ttl" and t: "now + ttl * 1000 \<le> t"
  shows "fst (CacheManager_get t key (snd (CacheManager_set now key v (Some ttl) c))) = None"
proof -
  let ?c = "snd (CacheManager_set now key v (Some ttl) c)"
  have a: "actualTTL (Some ttl) (config c) = ttl" using ttl by (simp add: actualTTL_def)
  have l1: "enableL1 (config c) \<Longrightarrow> l1Cache ?c key = Some \<lparr>data = v, expiresAt = now + min ttl 60000\<rparr>"
    using set_l1 [of c now key v ttl] a by simp
  have e1: "now + min ttl 60000 \<le> t" using ttl t by simp
  have l2: "enableL2 (config c) \<Longrightarrow> redis_get t (redis ?c) key = None"
    using set_redis(1) [of c ttl now key v] ttl t by (simp add: redis_get_def)
  show ?thesis
    using l1 l2 e1 by (cases "enableL1 (config c)"; cases "enableL2 (config c)")
      (simp_all add: CacheManager_get_def Let_def)
qed

lemma get_after_set_value:
  assumes ttl: "0 < ttl"
  shows "fst (CacheManager_get t key (snd (CacheManager_set now key v (Some ttl) c))) \<in> {None, Some v}"
proof -
  let ?c = "snd (CacheManager_set now key v (Some ttl) c)"
  have a: "actualTTL (Some ttl) (config c) = ttl" using ttl by (simp add: actualTTL_def)
  have l1: "enableL1 (config c) \<Longrightarrow> l1Cache ?c key = Some \<lparr>data = v, expiresAt = now + min ttl 60000\<rparr>"
    using set_l1 [of c now key v ttl] a by simp
  have l2: "enableL2 (config c) \<Longrightarrow> redis_get t (redis ?c) key \<in> {None, Some v}"
    using set_redis(1) [of c ttl now key v] ttl by (simp add: redis_get_def)
  show ?thesis
    using l1 l2 by (cases "enableL1 (config c)"; cases "enableL2 (config c)")
      (auto simp add: CacheManager_get_def Let_def split: option.splits)
qed

text \<open>
  With the local tier alone, an entry written with a TTL of \<open>ttl\<close> seconds (up to
  60000) is served for \<open>ttl\<close> milliseconds: \<open>set\<close> adds the number of seconds to the
  clock, which counts milliseconds.
\<close>

lemma get_after_set_local_only:
  assumes "enableL1 (config c)" and "\<not> enableL2 (config c)" and "0 < ttl" and "ttl \<le> 60000"
  shows "fst (CacheManager_get t key (snd (CacheManager_set now key v (Some ttl) c)))
           = (if t < now + ttl then Some v else None)"
  using assms by (simp add: CacheManager_get_def CacheManager_set_def actualTTL_def Let_def)

text \<open>
  A hit in the shared tier re-populates the local tier for 60000 milliseconds, the unit
  of the clock.
\<close>

lemma get_repopulates_local_tier:
  assumes "enableL1 (config c)" and "enableL2 (config c)" and "0 < ttl"
    and "now + min ttl 60000 \<le> t" and "t < now + ttl * 1000"
  shows "l1Cache (snd (CacheManager_get t key (snd (CacheManager_set now key v (Some ttl) c)))) key
           = Some \<lparr>data = v, expiresAt = t + 60000\<rparr>"
  using assms
  by (simp add: CacheManager_get_def CacheManager_set_def actualTTL_def redis_setex_def
        redis_get_def Let_def)

text \<open>
  Claim C2 fails on the code. A quote cached for 10 seconds at time 0 with the local
  tier alone is returned 9 ms later, and is a miss 10 ms later and 5 seconds later,
  strictly within its TTL: \<open>set\<close> stores \<open>expiresAt = 10\<close>, the TTL in seconds added
  to a clock in milliseconds. The same write is still served at 5 seconds with the
  shared tier alone and with both tiers, the shared tier keeping it for 10 seconds, and
  the read that finds it there re-populates the local tier until \<open>5000 + 60000\<close>, in
  milliseconds.
\<close>

theorem C2_local_entry_expires_after_ttl_milliseconds:
  "fst (CacheManager_get 9 ''quote:AAPL''
        (snd (CacheManager_set 0 ''quote:AAPL'' ''150.00'' (Some 10) (CacheManager_new l1_only))))
     = Some ''150.00''
   \<and> fst (CacheManager_get 10 ''quote:AAPL''
        (snd (CacheManager_set 0 ''quote:AAPL'' ''150.00'' (Some 10) (CacheManager_new l1_only))))
     = None
   \<and> (5000 :: int) < 0 + 10 * 1000
   \<and> fst (CacheManager_get 5000 ''quote:AAPL''
        (snd (CacheManager_set 0 ''quote:AAPL'' ''150.00'' (Some 10) (CacheManager_new l1_only))))
     = None
   \<and> l1Cache (snd (CacheManager_set 0 ''quote:AAPL'' ''150.00'' (Some 10) (CacheManager_new l1_only)))
        ''quote:AAPL''
     = Some \<lparr>data = ''150.00'', expiresAt = 10\<rparr>
   \<and> fst (CacheManager_get 5000 ''quote:AAPL''
        (snd (CacheManager_set 0 ''quote:AAPL'' ''150.00'' (Some 10) (CacheManager_new l2_only))))
     = Some ''150.00''
   \<and> fst (CacheManager_get 5000 ''quote:AAPL''
        (snd (CacheManager_set 0 ''quote:AAPL'' ''150.00'' (Some 10) (CacheManager_new both_tiers))))
     = Some ''150.00''
   \<and> l1Cache (snd (CacheManager_get 5000 ''quote:AAPL''
        (snd (CacheManager_set 0 ''quote:AAPL'' ''150.00'' (Some 10) (CacheManager_new both_tiers)))))
        ''quote:AAPL''
     = Some \<lparr>data = ''150.00'', expiresAt = 65000\<rparr>"
  by (simp add: CacheManager_get_def CacheManager_set_def CacheManager_new_def l1_only_def
        l2_only_def both_tiers_def actualTTL_def redis_get_def redis_setex_def Let_def)

text \<open>
  The realistic TTLs of the repository behave alike with the local tier alone: a
  position list cached for 300 seconds is a miss after 300 ms.
\<close>

lemma local_only_five_minutes_is_300_ms:
  "fst (CacheManager_get 299 ''positions:ACC1''
        (snd (CacheManager_set 0 ''positions:ACC1'' ''10 AAPL'' (Some 300) (CacheManager_new l1_only))))
     = Some ''10 AAPL''
   \<and> fst (CacheManager_get 300 ''positions:ACC1''
        (snd (CacheManager_set 0 ''positions:ACC1'' ''10 AAPL'' (Some 300) (CacheManager_new l1_only))))
     = None"
  using get_after_set_local_only
          [of "CacheManager_new l1_only" 300 299 "''positions:ACC1''" 0 "''10 AAPL''"]
        get_after_set_local_only
          [of "CacheManager_new l1_only" 300 300 "''positions:ACC1''" 0 "''10 AAPL''"]
  by (simp add: CacheManager_new_def l1_only_def)

text \<open>
  A read that re-populated the local tier keeps the value there for a minute: with
  both tiers, the 10-second quote read at 9999 ms is still served at 20000 ms.
\<close>

lemma repopulated_entry_outlives_ttl:
  "fst (CacheManager_get 20000 ''quote:AAPL''
        (snd (CacheManager_get 9999 ''quote:AAPL''
          (snd (CacheManager_set 0 ''quote:AAPL'' ''150.00'' (Some 10) (CacheManager_new both_tiers))))))
     = Some ''150.00''"
  by (simp add: CacheManager_get_def CacheManager_set_def CacheManager_new_def
        both_tiers_def actualTTL_def redis_get_def redis_setex_def Let_def)

text \<open>
  Claim C3 fails on the code. \<open>invalidateAfterOrder\<close> hands the patterns to
  \<open>cache.delete\<close>, which removes the key spelt \<open>positions:*\<close> and no key matching
  it: a position entry written a second before the order fill is still returned after
  the invalidation, with both tiers enabled and with the shared tier alone.
\<close>

theorem C3_order_fill_invalidation_keeps_matching_keys:
  "startsWith ''positions:ACC1'' ''positions:''
   \<and> fst (CacheManager_get 1000 ''positions:ACC1''
        (invalidateAfterOrder ''AAPL''
          (snd (CacheManager_set 0 ''positions:ACC1'' ''10 AAPL'' (Some 60)
                 (CacheManager_new both_tiers)))))
     = Some ''10 AAPL''
   \<and> fst (CacheManager_get 1000 ''positions:ACC1''
        (invalidateAfterOrder ''AAPL''
          (snd (CacheManager_set 0 ''positions:ACC1'' ''10 AAPL'' (Some 60)
                 (CacheManager_new l2_only)))))
     = Some ''10 AAPL''"
  by (simp add: CacheManager_get_def CacheManager_set_def CacheManager_new_def
        invalidateAfterOrder_def CacheManager_delete_def redis_del_def
        l2_only_def both_tiers_def actualTTL_def redis_get_def redis_setex_def Let_def)

section \<open>API client: what follows an auth rejection\<close>

lemma refreshToken_fails:
  "\<exists>e am'. refreshToken am = (Inl e, am')
     \<and> e \<in> {Error ''No refresh token available'',
              Error ''Token refresh not implemented - using manual token from .env''}"
  by (simp add: refreshToken_def refreshTokenWith_def performTokenRefresh_def)





section \<open>Doubles: how a ratio is rounded\<close>

text \<open>
  \<open>bitLength\<close> and \<open>floorLog2\<close> compute what their names say; \<open>roundHalfEven\<close> is
  within a half of the ratio; a finite result of \<open>toDouble\<close> is a double within half
  a unit in the last place of the ratio, and a result is at or below \<open>0\<close> exactly for
  the ratios that are at or below \<open>0\<close> or not above half of the smallest subnormal,
  \<open>2 ^ (-1075)\<close>.
\<close>

lemma bitLength_nonneg: "0 \<le> bitLength a"
  by (induction a rule: bitLength.induct) (subst bitLength.simps, simp)

lemma bitLength_pos: "0 < a \<Longrightarrow> 0 < bitLength a"
  using bitLength_nonneg [of "a div 2"] by (subst bitLength.simps) simp

lemma bitLength_bounds:
  "0 < a \<Longrightarrow> 2 ^ nat (bitLength a - 1) \<le> a \<and> a < 2 ^ nat (bitLength a)"
proof (induction a rule: bitLength.induct)
  case (1 a)
  show ?case
  proof (cases "a = 1")
    case True
    have "bitLength 1 = 1" by (simp add: bitLength.simps [of 1] bitLength.simps [of 0])
    with True show ?thesis by simp
  next
    case False
    with 1 have h: "0 < a div 2" by simp
    have ih: "2 ^ nat (bitLength (a div 2) - 1) \<le> a div 2 \<and> a div 2 < 2 ^ nat (bitLength (a div 2))"
      using 1 h by simp
    have bl: "bitLength a = 1 + bitLength (a div 2)"
      using 1(2) by (subst bitLength.simps) simp
    have p: "0 < bitLength (a div 2)" using bitLength_pos [OF h] .
    have e1: "nat (bitLength a - 1) = Suc (nat (bitLength (a div 2) - 1))"
      using bl p by simp
    have e2: "nat (bitLength a) = Suc (nat (bitLength (a div 2)))"
      using bl p by simp
    show ?thesis using ih unfolding e1 e2 by simp presburger
  qed
qed

lemma bitLength_powi:
  assumes "0 < a"
  shows "(2::rat) powi (bitLength a - 1) \<le> of_int a" and "of_int a < (2::rat) powi (bitLength a)"
proof -
  have p: "0 < bitLength a" using bitLength_pos [OF assms] .
  have b: "2 ^ nat (bitLength a - 1) \<le> a" "a < 2 ^ nat (bitLength a)"
    using bitLength_bounds [OF assms] by auto
  have "(of_int (2 ^ nat (bitLength a - 1)) :: rat) \<le> of_int a"
    using b(1) by (simp only: of_int_le_iff)
  then show "(2::rat) powi (bitLength a - 1) \<le> of_int a"
    using p by (simp add: power_int_def)
  have "(of_int a :: rat) < of_int (2 ^ nat (bitLength a))"
    using b(2) by (simp only: of_int_less_iff)
  then show "of_int a < (2::rat) powi (bitLength a)"
    using p by (simp add: power_int_def)
qed

lemma floorLog2_test:
  assumes "0 < a" "0 < b"
  shows "(if 0 \<le> d then b * 2 ^ nat d \<le> a else b \<le> a * 2 ^ nat (- d))
           \<longleftrightarrow> (2::rat) powi d \<le> of_int a / of_int b"
proof (cases "0 \<le> d")
  case True
  have "(b * 2 ^ nat d \<le> a) \<longleftrightarrow> ((of_int (b * 2 ^ nat d) :: rat) \<le> of_int a)"
    by (simp only: of_int_le_iff)
  also have "\<dots> \<longleftrightarrow> (2::rat) ^ nat d \<le> of_int a / of_int b"
    using assms by (simp add: field_simps)
  finally show ?thesis using True by (simp add: power_int_def)
next
  case False
  have "(b \<le> a * 2 ^ nat (- d)) \<longleftrightarrow> ((of_int b :: rat) \<le> of_int (a * 2 ^ nat (- d)))"
    by (simp only: of_int_le_iff)
  also have "\<dots> \<longleftrightarrow> 1 / (2::rat) ^ nat (- d) \<le> of_int a / of_int b"
    using assms by (simp add: field_simps)
  finally show ?thesis using False by (simp add: power_int_def field_simps)
qed

lemma floorLog2_bounds:
  assumes a: "0 < a" and b: "0 < b"
  shows "(2::rat) powi (floorLog2 a b) \<le> of_int a / of_int b"
    and "of_int a / of_int b < (2::rat) powi (floorLog2 a b + 1)"
proof -
  let ?r = "of_int a / of_int b :: rat"
  let ?d = "bitLength a - bitLength b"
  have ba: "(2::rat) powi (bitLength a - 1) \<le> of_int a" "of_int a < (2::rat) powi (bitLength a)"
    using bitLength_powi [OF a] by auto
  have bb: "(2::rat) powi (bitLength b - 1) \<le> of_int b" "of_int b < (2::rat) powi (bitLength b)"
    using bitLength_powi [OF b] by auto
  have bpos: "(0::rat) < of_int b" using b by simp
  have apos: "(0::rat) < of_int a" using a by simp
  have lo: "(2::rat) powi (?d - 1) < ?r"
  proof -
    have "(2::rat) powi (?d - 1) * of_int b < 2 powi (?d - 1) * 2 powi (bitLength b)"
      using bb(2) by (simp add: mult_strict_left_mono)
    also have "\<dots> = 2 powi (bitLength a - 1)"
      by (simp add: power_int_add [symmetric])
    also have "\<dots> \<le> of_int a" using ba(1) .
    finally show ?thesis using bpos by (simp add: field_simps)
  qed
  have hi: "?r < (2::rat) powi (?d + 1)"
  proof -
    have "of_int a < (2::rat) powi (bitLength a)" using ba(2) .
    also have "\<dots> = 2 powi (?d + 1) * 2 powi (bitLength b - 1)"
      by (simp add: power_int_add [symmetric])
    also have "\<dots> \<le> 2 powi (?d + 1) * of_int b"
      using bb(1) by (simp add: mult_left_mono)
    finally show ?thesis using bpos by (simp add: field_simps)
  qed
  have fl: "floorLog2 a b = (if (2::rat) powi ?d \<le> ?r then ?d else ?d - 1)"
    using floorLog2_test [OF a b, of ?d] by (simp add: floorLog2_def Let_def)
  show "(2::rat) powi (floorLog2 a b) \<le> ?r"
    using lo by (simp add: fl)
  show "?r < (2::rat) powi (floorLog2 a b + 1)"
    using hi by (auto simp add: fl not_le)
qed


lemma roundHalfEven_nonneg: "0 \<le> a \<Longrightarrow> 0 < b \<Longrightarrow> 0 \<le> roundHalfEven a b"
  by (simp add: roundHalfEven_def Let_def pos_imp_zdiv_nonneg_iff)

lemma roundHalfEven_zero_iff:
  assumes "0 \<le> a" "0 < b"
  shows "roundHalfEven a b = 0 \<longleftrightarrow> 2 * a \<le> b"
proof (cases "a < b")
  case True
  then have "a div b = 0" "a mod b = a" using assms by simp_all
  then show ?thesis by (auto simp add: roundHalfEven_def Let_def)
next
  case False
  then have "0 < a div b" using assms by (simp add: pos_imp_zdiv_pos_iff)
  then have "1 \<le> a div b" by simp
  then have "1 \<le> roundHalfEven a b" by (simp add: roundHalfEven_def Let_def)
  with False assms show ?thesis by simp
qed

lemma roundHalfEven_near:
  assumes "0 < b"
  shows "\<bar>of_int (roundHalfEven a b) - (of_int a / of_int b :: rat)\<bar> \<le> 1 / 2"
proof -
  let ?q = "a div b" and ?r = "a mod b"
  have ab: "a = ?q * b + ?r" by simp
  have r: "0 \<le> ?r" "?r < b" using assms by simp_all
  have bp: "(0::rat) < of_int b" using assms by simp
  have "(of_int a :: rat) = of_int ?q * of_int b + of_int ?r"
    by (metis ab of_int_add of_int_mult)
  then have e: "(of_int a / of_int b :: rat) = of_int ?q + of_int ?r / of_int b"
    using bp by (simp add: field_simps)
  have r0: "(0::rat) \<le> of_int ?r / of_int b" using r bp by simp
  show ?thesis
  proof (cases "2 * ?r \<le> b")
    case True
    then have "(of_int (2 * ?r) :: rat) \<le> of_int b" by (simp only: of_int_le_iff)
    then have h: "(of_int ?r / of_int b :: rat) \<le> 1 / 2" using bp by (simp add: field_simps)
    show ?thesis
    proof (cases "2 * ?r < b \<or> even ?q")
      case True
      then have "roundHalfEven a b = ?q" using \<open>2 * ?r \<le> b\<close> by (auto simp add: roundHalfEven_def Let_def)
      then show ?thesis using e h r0 by simp
    next
      case False
      then have t: "2 * ?r = b" using \<open>2 * ?r \<le> b\<close> by simp
      then have "(of_int (2 * ?r) :: rat) = of_int b" by simp
      then have h2: "(of_int ?r / of_int b :: rat) = 1 / 2" using bp by (simp add: field_simps)
      have "roundHalfEven a b = ?q + 1" using False t by (auto simp add: roundHalfEven_def Let_def)
      then show ?thesis using e h2 by simp
    qed
  next
    case False
    then have "(of_int b :: rat) < of_int (2 * ?r)" by (simp only: of_int_less_iff not_le)
    then have h: "1 / 2 < (of_int ?r / of_int b :: rat)" using bp by (simp add: field_simps)
    have "(of_int ?r :: rat) < of_int b" using r(2) by (simp only: of_int_less_iff)
    then have h1: "(of_int ?r / of_int b :: rat) < 1" using bp by simp
    have "roundHalfEven a b = ?q + 1" using False by (auto simp add: roundHalfEven_def Let_def)
    then show ?thesis using e h h1 by simp
  qed
qed

lemma le_zero_toDouble:
  assumes b: "0 < b"
  shows "le_zero (toDouble a b) \<longleftrightarrow> a \<le> 0 \<or> a * 2 ^ 1075 \<le> b"
proof -
  consider "a = 0" | "a < 0" | "0 < a" by linarith
  then show ?thesis
  proof cases
    case 1
    then show ?thesis by (simp add: toDouble_def)
  next
    case 2
    have q: "\<And>n. 0 \<le> roundHalfEven (- a) (b * 2 ^ n)" "\<And>n. 0 \<le> roundHalfEven (- (a * 2 ^ n)) b"
        "0 \<le> roundHalfEven (- a) b"
      using 2 b by (simp_all add: roundHalfEven_nonneg mult_le_0_iff)
    show ?thesis using 2 q
      by (simp add: toDouble_def Let_def mult_le_0_iff zero_le_mult_iff divide_le_0_iff)
  next
    case 3
    let ?fl = "floorLog2 a b"
    let ?r = "of_int a / of_int b :: rat"
    have bp: "(0::rat) < of_int b" using b by simp
    have fl: "(2::rat) powi ?fl \<le> ?r" "?r < (2::rat) powi (?fl + 1)"
      using floorLog2_bounds [OF 3 b] by auto
    have rhs: "(a * 2 ^ 1075 \<le> b) \<longleftrightarrow> ?r \<le> 2 powi (- 1075)"
    proof -
      have "(a * 2 ^ 1075 \<le> b) \<longleftrightarrow> ((of_int (a * 2 ^ 1075) :: rat) \<le> of_int b)"
        by (simp only: of_int_le_iff)
      also have "\<dots> \<longleftrightarrow> ?r \<le> 1 / 2 ^ 1075" using bp by (simp add: field_simps)
      finally show ?thesis by (simp add: power_int_def field_simps)
    qed
    show ?thesis
    proof (cases "?fl < - 1022")
      case True
      then have e: "max ?fl (- 1022) = - 1022" by simp
      have z: "roundHalfEven (a * 2 ^ 1074) b = 0 \<longleftrightarrow> a * 2 ^ 1075 \<le> b"
        using roundHalfEven_zero_iff [of "a * 2 ^ 1074" b] 3 b by (simp add: mult.commute)
      have n: "0 \<le> roundHalfEven (a * 2 ^ 1074) b"
        using 3 b by (intro roundHalfEven_nonneg) simp_all
      have "le_zero (toDouble a b) \<longleftrightarrow> roundHalfEven (a * 2 ^ 1074) b \<le> 0"
        using 3 e by (simp add: toDouble_def Let_def divide_le_0_iff)
      then show ?thesis using z n 3 by auto
    next
      case False
      then have e: "max ?fl (- 1022) = ?fl" by simp
      have "(2::rat) powi (- 1075) < 2 powi ?fl"
        using False by (intro power_int_strict_increasing) simp_all
      then have "(2::rat) powi (- 1075) < ?r" using fl(1) by (rule less_le_trans)
      then have "\<not> ?r \<le> (2::rat) powi (- 1075)" by (simp only: not_le)
      with rhs have nr: "\<not> a * 2 ^ 1075 \<le> b" by blast
      have pos: "\<not> le_zero (toDouble a b)"
      proof (cases "1024 \<le> ?fl")
        case True
        then show ?thesis using 3 e by (simp add: toDouble_def Let_def)
      next
        case f: False
        let ?s = "?fl - 52"
        let ?q = "if 0 \<le> ?s then roundHalfEven a (b * 2 ^ nat ?s) else roundHalfEven (a * 2 ^ nat (- ?s)) b"
        have one: "(1::rat) \<le> ?r * 2 powi (- ?fl)"
        proof -
          have "(2::rat) powi ?fl * 2 powi (- ?fl) \<le> ?r * 2 powi (- ?fl)"
            using fl(1) by (intro mult_right_mono) simp_all
          then show ?thesis by (simp add: power_int_add [symmetric])
        qed
        have qpos: "0 < ?q"
        proof (cases "0 \<le> ?s")
          case True
          have "b * 2 ^ nat ?s \<le> a"
          proof -
            have "(2::rat) powi ?s \<le> 2 powi ?fl" by (intro power_int_increasing) simp_all
            then have "(2::rat) powi ?s \<le> ?r" using fl(1) by simp
            then have "(2::rat) ^ nat ?s \<le> ?r" using True by (simp add: power_int_def)
            then have "(of_int (b * 2 ^ nat ?s) :: rat) \<le> of_int a" using bp by (simp add: field_simps)
            then show ?thesis by (simp only: of_int_le_iff)
          qed
          then have "\<not> 2 * a \<le> b * 2 ^ nat ?s" using 3 by simp
          then have "roundHalfEven a (b * 2 ^ nat ?s) \<noteq> 0"
            using roundHalfEven_zero_iff [of a "b * 2 ^ nat ?s"] 3 b by simp
          moreover have "0 \<le> roundHalfEven a (b * 2 ^ nat ?s)"
            using 3 b by (intro roundHalfEven_nonneg) simp_all
          ultimately show ?thesis using True by simp
        next
          case False
          have "b \<le> a * 2 ^ nat (- ?s)"
          proof -
            have "(2::rat) powi ?s \<le> 2 powi ?fl" by (intro power_int_increasing) simp_all
            then have "(2::rat) powi ?s \<le> ?r" using fl(1) by simp
            then have "1 / (2::rat) ^ nat (- ?s) \<le> ?r" using False by (simp add: power_int_def field_simps)
            then have "(of_int b :: rat) \<le> of_int (a * 2 ^ nat (- ?s))" using bp by (simp add: field_simps)
            then show ?thesis by (simp only: of_int_le_iff)
          qed
          moreover have "0 < a * 2 ^ nat (- ?s)" using 3 by simp
          ultimately have "\<not> 2 * (a * 2 ^ nat (- ?s)) \<le> b" by linarith
          then have "roundHalfEven (a * 2 ^ nat (- ?s)) b \<noteq> 0"
            using roundHalfEven_zero_iff [of "a * 2 ^ nat (- ?s)" b] 3 b by simp
          moreover have "0 \<le> roundHalfEven (a * 2 ^ nat (- ?s)) b"
            using 3 b by (intro roundHalfEven_nonneg) simp_all
          ultimately show ?thesis using False by simp
        qed
        show ?thesis
          using 3 e f qpos
          by (auto simp add: toDouble_def Let_def not_le zero_less_mult_iff zero_less_divide_iff
                split: if_splits)
      qed
      show ?thesis using pos nr 3 by simp
    qed
  qed
qed


lemma round_scaled_up:
  assumes "0 < b"
  shows "\<bar>of_int (roundHalfEven m (b * 2 ^ n)) * 2 ^ n - (of_int m / of_int b :: rat)\<bar> \<le> 2 ^ n / 2"
proof -
  let ?q = "of_int (roundHalfEven m (b * 2 ^ n)) :: rat"
  let ?d = "?q - (of_int m / of_int (b * 2 ^ n) :: rat)"
  have bp: "(0::rat) < of_int b" using assms by simp
  have n: "\<bar>?d\<bar> \<le> 1 / 2"
    using assms by (intro roundHalfEven_near) simp
  have "?q * 2 ^ n - of_int m / of_int b = ?d * 2 ^ n"
    using bp by (simp add: field_simps)
  then have "\<bar>?q * 2 ^ n - (of_int m / of_int b :: rat)\<bar> = \<bar>?d\<bar> * 2 ^ n"
    by (simp only: abs_mult) simp
  also have "\<dots> \<le> 1 / 2 * 2 ^ n"
    using n by (intro mult_right_mono) simp_all
  finally show ?thesis by simp
qed

lemma round_scaled_down:
  assumes "0 < b"
  shows "\<bar>of_int (roundHalfEven (m * 2 ^ n) b) / 2 ^ n - (of_int m / of_int b :: rat)\<bar> \<le> (1 / 2 ^ n) / 2"
proof -
  let ?q = "of_int (roundHalfEven (m * 2 ^ n) b) :: rat"
  let ?d = "?q - (of_int (m * 2 ^ n) / of_int b :: rat)"
  have bp: "(0::rat) < of_int b" using assms by simp
  have n: "\<bar>?d\<bar> \<le> 1 / 2"
    using assms by (intro roundHalfEven_near)
  have "?q / 2 ^ n - of_int m / of_int b = ?d / 2 ^ n"
    using bp by (simp add: field_simps)
  then have "\<bar>?q / 2 ^ n - (of_int m / of_int b :: rat)\<bar> = \<bar>?d\<bar> / 2 ^ n"
    by (simp only: abs_divide) simp
  also have "\<dots> \<le> 1 / 2 / 2 ^ n"
    using n by (intro divide_right_mono) simp_all
  finally show ?thesis by simp
qed

text \<open>
  The unit in the last place at \<open>a / b\<close> is \<open>2\<close> to the power
  \<open>max (floorLog2 \<bar>a\<bar> b) (-1022) - 52\<close>; a finite result is within half of it.
\<close>

lemma toDouble_half_ulp:
  assumes b: "0 < b" and x: "toDouble a b = Num x"
  shows "\<bar>x - of_int a / of_int b\<bar> \<le> 2 powi (max (floorLog2 \<bar>a\<bar> b) (- 1022) - 52) / 2"
proof (cases "a = 0")
  case True
  then have "x = 0" using x by (simp add: toDouble_def)
  with True show ?thesis by simp
next
  case False
  define s where "s = max (floorLog2 \<bar>a\<bar> b) (- 1022) - 52"
  have sg: "\<bar>x - of_int a / of_int b\<bar> = \<bar>of_int (sgn a) * x - (of_int \<bar>a\<bar> / of_int b :: rat)\<bar>"
  proof (cases "a < 0")
    case True
    then have "of_int (sgn a) * x - (of_int \<bar>a\<bar> / of_int b :: rat) = - (x - of_int a / of_int b)"
      by simp
    then show ?thesis by (simp only: abs_minus_cancel)
  next
    case f: False
    with False have "0 < a" by simp
    then show ?thesis by simp
  qed
  show ?thesis
  proof (cases "0 \<le> s")
    case True
    have "x = of_int (sgn a) * of_int (roundHalfEven \<bar>a\<bar> (b * 2 ^ nat s) * 2 ^ nat s)"
      using x False True unfolding s_def
      by (simp add: toDouble_def Let_def split: if_splits)
    then have "of_int (sgn a) * x = of_int (roundHalfEven \<bar>a\<bar> (b * 2 ^ nat s)) * 2 ^ nat s"
      using False by (cases "a < 0") simp_all
    then have "\<bar>of_int (sgn a) * x - (of_int \<bar>a\<bar> / of_int b :: rat)\<bar> \<le> 2 ^ nat s / 2"
      using round_scaled_up [OF b, of "\<bar>a\<bar>" "nat s"] by simp
    then show ?thesis using sg True unfolding s_def [symmetric] by (simp add: power_int_def)
  next
    case f: False
    have "x = of_int (sgn a) * (of_int (roundHalfEven (\<bar>a\<bar> * 2 ^ nat (- s)) b) / of_int (2 ^ nat (- s)))"
      using x False f unfolding s_def
      by (simp add: toDouble_def Let_def split: if_splits)
    then have "of_int (sgn a) * x = of_int (roundHalfEven (\<bar>a\<bar> * 2 ^ nat (- s)) b) / 2 ^ nat (- s)"
      using False by (cases "a < 0") simp_all
    then have "\<bar>of_int (sgn a) * x - (of_int \<bar>a\<bar> / of_int b :: rat)\<bar> \<le> (1 / 2 ^ nat (- s)) / 2"
      using round_scaled_down [OF b, of "\<bar>a\<bar>" "nat (- s)"] by simp
    then show ?thesis using sg f unfolding s_def [symmetric] by (simp add: power_int_def field_simps)
  qed
qed

lemma roundHalfEven_le:
  assumes b: "0 < b" and le: "(of_int a / of_int b :: rat) < of_int n"
  shows "roundHalfEven a b \<le> n"
proof -
  have "\<bar>of_int (roundHalfEven a b) - (of_int a / of_int b :: rat)\<bar> \<le> 1 / 2"
    using roundHalfEven_near [OF b] .
  then have "(of_int (roundHalfEven a b) :: rat) \<le> of_int a / of_int b + 1 / 2" by linarith
  then have "(of_int (roundHalfEven a b) :: rat) < of_int n + 1 / 2" using le by linarith
  then have "(of_int (roundHalfEven a b) :: rat) < of_int (n + 1)" by simp
  then have "roundHalfEven a b < n + 1" by (simp only: of_int_less_iff)
  then show ?thesis by simp
qed

text \<open>
  A finite result is a double: an integer of at most 53 bits times a power of two
  between \<open>2 ^ (-1074)\<close> and \<open>2 ^ 971\<close>, below \<open>2 ^ 1024\<close> in absolute value.
\<close>

lemma toDouble_is_double:
  assumes b: "0 < b" and x: "toDouble a b = Num x"
  shows "\<exists>q s. x = of_int q * 2 powi s \<and> \<bar>q\<bar> \<le> 2 ^ 53 \<and> - 1074 \<le> s \<and> s \<le> 971
           \<and> (s = 971 \<longrightarrow> \<bar>q\<bar> < 2 ^ 53)"
proof (cases "a = 0")
  case True
  then have "x = 0" using x by (simp add: toDouble_def)
  then have "x = of_int 0 * 2 powi 0 \<and> \<bar>0::int\<bar> \<le> 2 ^ 53 \<and> - 1074 \<le> (0::int) \<and> (0::int) \<le> 971
      \<and> ((0::int) = 971 \<longrightarrow> \<bar>0::int\<bar> < 2 ^ 53)" by simp
  then show ?thesis by blast
next
  case False
  define m where "m = \<bar>a\<bar>"
  define e where "e = max (floorLog2 m b) (- 1022)"
  define s where "s = e - 52"
  define q where "q = (if 0 \<le> s then roundHalfEven m (b * 2 ^ nat s)
                        else roundHalfEven (m * 2 ^ nat (- s)) b)"
  have mpos: "0 < m" using False by (simp add: m_def)
  have bp: "(0::rat) < of_int b" using b by simp
  have td: "toDouble a b =
       (if 1024 \<le> e then (if a < 0 then MinusInfinity else PlusInfinity)
        else if e = 1023 \<and> q = 2 ^ 53 then (if a < 0 then MinusInfinity else PlusInfinity)
        else Num (of_int (sgn a) * (if 0 \<le> s then of_int (q * 2 ^ nat s)
                                     else of_int q / of_int (2 ^ nat (- s)))))"
    using False unfolding toDouble_def Let_def m_def [symmetric] e_def [symmetric]
      s_def [symmetric] q_def [symmetric] by simp
  have e1: "e < 1024" using td x by (auto split: if_splits)
  have e2: "\<not> (e = 1023 \<and> q = 2 ^ 53)" using td x by (auto split: if_splits)
  have xv: "x = of_int (sgn a) * (if 0 \<le> s then of_int (q * 2 ^ nat s)
                                     else of_int q / of_int (2 ^ nat (- s)))"
    using td x e1 e2 by (auto split: if_splits)
  have xs: "x = of_int (sgn a * q) * 2 powi s"
    unfolding xv by (simp add: power_int_def field_simps)
  have q0: "0 \<le> q"
    using mpos b unfolding q_def by (auto intro!: roundHalfEven_nonneg)
  have up: "(of_int m / of_int b :: rat) < 2 powi (e + 1)"
  proof -
    have "(of_int m / of_int b :: rat) < 2 powi (floorLog2 m b + 1)"
      using floorLog2_bounds(2) [OF mpos b] .
    also have "\<dots> \<le> 2 powi (e + 1)"
      unfolding e_def by (intro power_int_increasing) simp_all
    finally show ?thesis .
  qed
  have r53: "(of_int m / of_int b :: rat) < 2 ^ 53 * 2 powi s"
  proof -
    have "(2::rat) ^ 53 * 2 powi s = 2 powi 53 * 2 powi s" by (simp add: power_int_def)
    also have "\<dots> = 2 powi (53 + s)" by (rule power_int_add [symmetric]) simp
    also have "53 + s = e + 1" by (simp add: s_def)
    finally show ?thesis using up by simp
  qed
  have q53: "q \<le> 2 ^ 53"
  proof (cases "0 \<le> s")
    case True
    have "(of_int m / of_int (b * 2 ^ nat s) :: rat) < of_int (2 ^ 53)"
      using r53 True bp by (simp add: power_int_def field_simps)
    then have "roundHalfEven m (b * 2 ^ nat s) \<le> 2 ^ 53"
      using b by (intro roundHalfEven_le) simp_all
    then show ?thesis using True by (simp add: q_def)
  next
    case f: False
    have "(of_int (m * 2 ^ nat (- s)) / of_int b :: rat) < of_int (2 ^ 53)"
      using r53 f bp by (simp add: power_int_def field_simps)
    then have "roundHalfEven (m * 2 ^ nat (- s)) b \<le> 2 ^ 53"
      using b by (intro roundHalfEven_le) simp_all
    then show ?thesis using f by (simp add: q_def)
  qed
  have aq: "\<bar>sgn a * q\<bar> = q" using False q0 by (simp add: abs_mult)
  have s1: "- 1074 \<le> s" unfolding s_def e_def by simp
  have s2: "s \<le> 971" using e1 unfolding s_def by simp
  have s3: "s = 971 \<longrightarrow> \<bar>sgn a * q\<bar> < 2 ^ 53"
    using e2 q53 aq unfolding s_def by auto
  show ?thesis using xs aq q53 s1 s2 s3 by (intro exI [of _ "sgn a * q"] exI [of _ s]) simp
qed

section \<open>Numbers read from strings\<close>

lemma parseFloat_empty: "parseFloat [] = NaN"
  by (simp add: parseFloat_def Let_def)


text \<open>
  Literals a double does not hold: \<open>0.1\<close> and \<open>2\<^sup>5\<^sup>3 + 1\<close> are rounded to the nearest
  double, the second one on a tie to the even neighbour.
\<close>

lemma parseFloat_rounds:
  "parseFloat ''0.1'' = Num (3602879701896397 / 36028797018963968)"
  "parseFloat ''9007199254740993'' = Num 9007199254740992"
  by code_simp+


text \<open>From \<open>2\<^sup>1\<^sup>0\<^sup>2\<^sup>4\<close> on the result is \<open>Infinity\<close>.\<close>

lemma parseFloat_overflow: "parseFloat ''1e309'' = PlusInfinity"
  by code_simp

lemma parseInt_retry_after:
  "parseInt ''60'' = Num 60"
  "times1000 (parseInt ''60'') = Num 60000"
  "parseInt ''0x1F'' = Num 31"
  "parseInt ''soon'' = NaN"
  by code_simp+

section \<open>Trading service: what placeOrder checks\<close>




section \<open>Concurrent callers of get: no coalescing\<close>











text \<open>
  The two steps around the transport call are \<open>circuitBreaker.execute\<close> applied to the
  call: the gate and the call in the first, \<open>onSuccess\<close> or \<open>onFailure\<close> in the second.
\<close>

lemma admitted_then_inflight_is_execute:
  assumes "get_step rq respond ck Admitted (a, n) = (InFlight n, a1, n1)"
  shows "execute (read1 ck) (read1 ck') (\<lambda>w. (respond w, Suc w)) n (circuitBreaker a)
           = (respond n, n1,
              circuitBreaker (fst (snd (get_step rq respond ck' (InFlight n) (a1, n1)))))"
  using assms
  by (auto simp: get_step_def execute_def Let_def split: sum.splits)




section \<open>Cache: what clear removes\<close>

text \<open>
  With a pattern, \<open>clear\<close> removes from the shared tier the keys the server matches,
  and from the local tier the keys in which the regular expression finds a match.
\<close>

lemma clear_shared_tier:
  assumes "p \<noteq> []"
  shows "redis (snd (CacheManager_clear keysMatch newRegExp (Some p) c))
           = (if enableL2 (config c) then (\<lambda>k. if keysMatch p k then None else redis c k)
              else redis c)"
  using assms
  by (simp add: CacheManager_clear_def falsy_def Let_def)

lemma clear_local_tier:
  assumes "p \<noteq> []" and "newRegExp (replaceFirstStar p) = Some test"
  shows "l1Cache (snd (CacheManager_clear keysMatch newRegExp (Some p) c))
           = (\<lambda>k. if test k then None else l1Cache c k)"
  using assms
  by (auto simp: CacheManager_clear_def matchesPattern_def falsy_def Let_def fun_eq_iff)

text \<open>
  The two tiers do not match alike. The glob \<open>positions:*\<close> does not match the key
  \<open>xpositions:1\<close>, but the regular expression \<open>positions:.*\<close> is found inside it:
  with the local tier alone, \<open>clear('positions:*')\<close> turns that key into a miss.
\<close>

lemma clear_local_tier_removes_unmatched_key:
  "\<not> starGlob ''positions:*'' ''xpositions:1''
   \<and> fst (CacheManager_get 30 ''xpositions:1''
          (snd (CacheManager_set 0 ''xpositions:1'' ''v'' (Some 60) (CacheManager_new l1_only))))
       = Some ''v''
   \<and> fst (CacheManager_get 30 ''xpositions:1''
          (snd (CacheManager_clear starGlob simpleRegExp (Some ''positions:*'')
             (snd (CacheManager_set 0 ''xpositions:1'' ''v'' (Some 60)
                (CacheManager_new l1_only))))))
       = None"
  by (simp add: CacheManager_get_def CacheManager_set_def CacheManager_new_def l1_only_def
        CacheManager_clear_def matchesPattern_def falsy_def actualTTL_def replaceFirstStar_def
        simpleRegExp_def special_def atomOf_def Let_def)

end
